theory Spec2Isabelle
  imports Main "HOL-Library.Monad_Syntax"
begin

section \<open>The file-system model of the file explorer\<close>

text \<open>
  The objects of \<^verbatim>\<open>file-system.ts\<close> live in a store: a list of objects, an object's
  identity being its index. \<^verbatim>\<open>File\<close> and \<^verbatim>\<open>Directory\<close> are the two classes of the
  union \<^verbatim>\<open>FSItem\<close>; the constructor is the \<^verbatim>\<open>type\<close> tag. The private array
  \<^verbatim>\<open>_children\<close> is referenced by its directory only (the getter hands out a copy), so
  it is kept as a value inside the directory object, in insertion order.
  Characters are code units below 256.
\<close>

type_synonym ref = nat

datatype FSItem =
    File (name: string) (parent: "ref option")
  | Directory (name: string) (parent: "ref option") (deleted: bool) (priv_children: "ref list")

type_synonym heap = "FSItem list"

datatype FSType = type_file | type_directory

text \<open>
  Both \<^verbatim>\<open>throw new Error(msg)\<close> of the source are \<open>Error msg\<close>. \<open>TypeError\<close> is what
  JavaScript raises when a reference is no object of the class a method expects; the
  TypeScript types exclude it, the untyped store does not.
\<close>

datatype error = Error string | TypeError

abbreviation InvalidOperation :: error where
  "InvalidOperation \<equiv> Error ''cannot add item to a deleted directory''"

abbreviation InvalidArgument :: error where
  "InvalidArgument \<equiv> Error ''cannot create an item with an empty name''"

definition get :: "heap \<Rightarrow> ref \<Rightarrow> FSItem option" where
  "get h r = (if r < length h then Some (h ! r) else None)"

subsection \<open>Strings and arrays of the JavaScript library\<close>

text \<open>\<^verbatim>\<open>s.split(sep)\<close> for a one-character separator: never empty, \<^verbatim>\<open>"".split(".")\<close> is \<^verbatim>\<open>[""]\<close>.\<close>

fun String_split :: "char \<Rightarrow> string \<Rightarrow> string list" where
  "String_split sep [] = [[]]"
| "String_split sep (c # cs) =
     (if c = sep then [] # String_split sep cs
      else (case String_split sep cs of
              [] \<Rightarrow> [[c]]
            | p # ps \<Rightarrow> (c # p) # ps))"

fun String_startsWith :: "string \<Rightarrow> string \<Rightarrow> bool" where
  "String_startsWith s [] = True"
| "String_startsWith [] (p # ps) = False"
| "String_startsWith (c # cs) (p # ps) = (c = p \<and> String_startsWith cs ps)"

text \<open>\<^verbatim>\<open>parts.at(-1)\<close>: the last element, \<^verbatim>\<open>undefined\<close> (here \<open>None\<close>) on an empty array.\<close>

definition Array_at_last :: "'a list \<Rightarrow> 'a option" where
  "Array_at_last xs = (case xs of [] \<Rightarrow> None | _ # _ \<Rightarrow> Some (last xs))"

text \<open>\<^verbatim>\<open>parts.join(sep)\<close>.\<close>

fun Array_join :: "string \<Rightarrow> string list \<Rightarrow> string" where
  "Array_join sep [] = []"
| "Array_join sep [x] = x"
| "Array_join sep (x # y # ys) = x @ sep @ Array_join sep (y # ys)"

text \<open>
  \<^verbatim>\<open>s.trim()\<close>: of JavaScript's white space and line terminators, the code units below
  256 are U+0009 to U+000D, U+0020 and U+00A0.
\<close>

definition is_white_space :: "char \<Rightarrow> bool" where
  "is_white_space c = (of_char c \<in> {9, 10, 11, 12, 13, 32, 160 :: nat})"

definition String_trim :: "string \<Rightarrow> string" where
  "String_trim s = rev (dropWhile is_white_space (rev (dropWhile is_white_space s)))"

subsection \<open>File\<close>

text \<open>
  \<^verbatim>\<open>get ext()\<close>:
  \<^verbatim>\<open>
    const parts = this.name.split(".")
    if (parts.length === 1) { return this.name.startsWith(".") ? parts[0] : "" }
    else { return parts.at(-1) || "" }
  \<close>
\<close>

definition File_ext :: "FSItem \<Rightarrow> string" where
  "File_ext this =
     (let parts = String_split CHR ''.'' (name this) in
      if length parts = 1
      then (if String_startsWith (name this) ''.'' then hd parts else '''')
      else (case Array_at_last parts of
              None \<Rightarrow> ''''
            | Some s \<Rightarrow> (if s = '''' then '''' else s)))"

text \<open>The substring after the last occurrence of a character.\<close>

definition after_last :: "char \<Rightarrow> string \<Rightarrow> string" where
  "after_last c s = rev (takeWhile (\<lambda>x. x \<noteq> c) (rev s))"

subsection \<open>Directory\<close>

text \<open>
  \<^verbatim>\<open>a.localeCompare(b)\<close> is a function of the host's collation tables; it is a parameter
  here: negative, zero or positive. \<^verbatim>\<open>Array.prototype.sort\<close> is a stable sort (the
  language fixes the result for a consistent comparator only): insertion from the right,
  an element going before the first one it does not compare greater than.
\<close>

type_synonym collation = "string \<Rightarrow> string \<Rightarrow> int"

fun insert_sorted :: "('a \<Rightarrow> 'a \<Rightarrow> int) \<Rightarrow> 'a \<Rightarrow> 'a list \<Rightarrow> 'a list" where
  "insert_sorted cmp x [] = [x]"
| "insert_sorted cmp x (y # ys) =
     (if cmp x y \<le> 0 then x # y # ys else y # insert_sorted cmp x ys)"

definition Array_sort :: "('a \<Rightarrow> 'a \<Rightarrow> int) \<Rightarrow> 'a list \<Rightarrow> 'a list" where
  "Array_sort cmp xs = foldr (insert_sorted cmp) xs []"

text \<open>
  The name behind a reference. A reference outside the store has no object; the stores
  built by the operations below never hold one, and it reads as the empty name.
\<close>

definition name_of :: "heap \<Rightarrow> ref \<Rightarrow> string" where
  "name_of h r = (case get h r of None \<Rightarrow> [] | Some obj \<Rightarrow> name obj)"

definition by_name :: "collation \<Rightarrow> heap \<Rightarrow> ref \<Rightarrow> ref \<Rightarrow> int" where
  "by_name lc h a b = lc (name_of h a) (name_of h b)"

text \<open>
  \<^verbatim>\<open>get children() { return this._children.slice().sort((a, b) => a.name.localeCompare(b.name)) }\<close>:
  a sorted copy; the store is not an output. \<open>None\<close> when the receiver is no directory.
\<close>

definition Directory_children :: "collation \<Rightarrow> heap \<Rightarrow> ref \<Rightarrow> ref list option" where
  "Directory_children lc h this =
     (case get h this of
        Some (Directory _ _ _ cs) \<Rightarrow> Some (Array_sort (by_name lc h) cs)
      | _ \<Rightarrow> None)"

text \<open>\<^verbatim>\<open>item.parent = p\<close>, on an item of either class.\<close>

definition set_parent :: "heap \<Rightarrow> ref \<Rightarrow> ref option \<Rightarrow> heap option" where
  "set_parent h item p =
     (case get h item of
        None \<Rightarrow> None
      | Some (File nm _) \<Rightarrow> Some (h[item := File nm p])
      | Some (Directory nm _ del cs) \<Rightarrow> Some (h[item := Directory nm p del cs]))"

text \<open>\<^verbatim>\<open>this._children.push(item)\<close>.\<close>

definition push_child :: "heap \<Rightarrow> ref \<Rightarrow> ref \<Rightarrow> heap option" where
  "push_child h this item =
     (case get h this of
        Some (Directory nm p del cs) \<Rightarrow> Some (h[this := Directory nm p del (cs @ [item])])
      | _ \<Rightarrow> None)"

text \<open>
  \<^verbatim>\<open>
  add(item) {
      if (this.deleted) { throw new Error("cannot add item to a deleted directory") }
      item.parent = this
      this._children.push(item)
      return item
  }
  \<close>
\<close>

definition Directory_add :: "heap \<Rightarrow> ref \<Rightarrow> ref \<Rightarrow> error + heap \<times> ref" where
  "Directory_add h this item =
     (case get h this of
        Some (Directory _ _ del _) \<Rightarrow>
          if del then Inl (Error ''cannot add item to a deleted directory'')
          else (case set_parent h item (Some this) of
                  None \<Rightarrow> Inl TypeError
                | Some h1 \<Rightarrow>
                    (case push_child h1 this item of
                       None \<Rightarrow> Inl TypeError
                     | Some h2 \<Rightarrow> Inr (h2, item)))
      | _ \<Rightarrow> Inl TypeError)"


text \<open>\<^verbatim>\<open>item.deleted = true\<close>.\<close>

definition set_deleted :: "heap \<Rightarrow> ref \<Rightarrow> heap option" where
  "set_deleted h item =
     (case get h item of
        Some (Directory nm p _ cs) \<Rightarrow> Some (h[item := Directory nm p True cs])
      | _ \<Rightarrow> None)"

text \<open>\<^verbatim>\<open>this._children = this._children.filter((child) => child !== item)\<close>.\<close>

definition remove_child :: "heap \<Rightarrow> ref \<Rightarrow> ref \<Rightarrow> heap option" where
  "remove_child h this item =
     (case get h this of
        Some (Directory nm p del cs) \<Rightarrow>
          Some (h[this := Directory nm p del (filter (\<lambda>child. child \<noteq> item) cs)])
      | _ \<Rightarrow> None)"

text \<open>\<^verbatim>\<open>for (const x of xs) body\<close> over an array nobody else holds, the store threaded through.\<close>

fun for_of :: "'a list \<Rightarrow> ('s \<Rightarrow> 'a \<Rightarrow> 's option) \<Rightarrow> 's \<Rightarrow> 's option" where
  "for_of [] body s = Some s"
| "for_of (x # xs) body s = (case body s x of None \<Rightarrow> None | Some s' \<Rightarrow> for_of xs body s')"

text \<open>
  \<^verbatim>\<open>
  delete(item) {
      if (item.type === "directory") {
          for (const child of item.children) { item.delete(child) }
          item.deleted = true
      }
      this._children = this._children.filter((child) => { return child !== item })
  }
  \<close>
  The recursion follows the child references, which a store may close into a cycle: the
  first argument bounds the depth of the calls, and \<open>None\<close> is a call that does not
  complete (the bound is reached, or a reference is no object of the expected class).
\<close>

fun Directory_delete :: "collation \<Rightarrow> nat \<Rightarrow> heap \<Rightarrow> ref \<Rightarrow> ref \<Rightarrow> heap option" where
  "Directory_delete lc 0 h this item = None"
| "Directory_delete lc (Suc n) h this item =
     do {
       h1 \<leftarrow> (case get h item of
                None \<Rightarrow> None
              | Some (File _ _) \<Rightarrow> Some h
              | Some (Directory _ _ _ _) \<Rightarrow>
                  do {
                    snapshot \<leftarrow> Directory_children lc h item;
                    h' \<leftarrow> for_of snapshot (\<lambda>h' child. Directory_delete lc n h' item child) h;
                    set_deleted h' item
                  });
       remove_child h1 this item
     }"

subsection \<open>Paths\<close>

text \<open>
  \<^verbatim>\<open>
  const filepath = (item) => {
      let parts = []
      do { parts.unshift(item.name); item = item.parent! } while (item)
      return parts.join("/")
  }
  \<close>
  The loop runs as long as there is a parent; the first argument bounds its iterations.
\<close>

fun filepath_loop :: "nat \<Rightarrow> heap \<Rightarrow> ref \<Rightarrow> string list \<Rightarrow> string list option" where
  "filepath_loop 0 h item parts = None"
| "filepath_loop (Suc n) h item parts =
     (case get h item of
        None \<Rightarrow> None
      | Some obj \<Rightarrow>
          (case parent obj of
             None \<Rightarrow> Some (name obj # parts)
           | Some p \<Rightarrow> filepath_loop n h p (name obj # parts)))"

definition filepath :: "nat \<Rightarrow> heap \<Rightarrow> ref \<Rightarrow> string option" where
  "filepath n h item = map_option (Array_join ''/'') (filepath_loop n h item [])"

subsection \<open>Selection\<close>

text \<open>
  Modelled from the spec: the class \<^verbatim>\<open>Selection\<close> of \<^verbatim>\<open>./selection\<close>, which the view
  model imports, with its constructor, \<^verbatim>\<open>fromClickEvent\<close> and \<^verbatim>\<open>items\<close>. It holds the ordered universe, the selected set and the anchor. A new
  selection has nothing selected and no anchor.
\<close>

record 'a Selection =
  universe :: "'a list"
  selected :: "'a set"
  anchor :: "'a option"

definition Selection_new :: "'a list \<Rightarrow> 'a Selection" where
  "Selection_new u = \<lparr>universe = u, selected = {}, anchor = None\<rparr>"

text \<open>Modelled from the spec: the selected items, in the order of the universe.\<close>

definition Selection_items :: "'a Selection \<Rightarrow> 'a list" where
  "Selection_items sel = filter (\<lambda>x. x \<in> selected sel) (universe sel)"

text \<open>Modelled from the spec: the three kinds of click that the modifier keys tell apart.\<close>

datatype click = Plain | Toggle | Range

text \<open>The index of the first occurrence of an item in a sequence.\<close>

fun index_of :: "'a list \<Rightarrow> 'a \<Rightarrow> nat option" where
  "index_of [] x = None"
| "index_of (y # ys) x = (if y = x then Some 0 else map_option Suc (index_of ys x))"

text \<open>
  Modelled from the spec: \<^verbatim>\<open>fromClickEvent\<close>. A plain click selects the item alone and
  anchors it; a toggle click flips the item's membership and anchors it; a range click
  without an anchor is a plain click, and with one selects the items whose index lies in
  the inclusive span between the anchor and the item and leaves the anchor. Clicking an
  item outside the universe is undefined: \<open>None\<close>.
\<close>

definition Selection_fromClickEvent :: "'a \<Rightarrow> click \<Rightarrow> 'a Selection \<Rightarrow> 'a Selection option" where
  "Selection_fromClickEvent item ev sel =
     (if item \<notin> set (universe sel) then None
      else (case ev of
              Plain \<Rightarrow> Some (sel\<lparr>selected := {item}, anchor := Some item\<rparr>)
            | Toggle \<Rightarrow>
                Some (sel\<lparr>selected := (if item \<in> selected sel then selected sel - {item}
                                        else insert item (selected sel)),
                          anchor := Some item\<rparr>)
            | Range \<Rightarrow>
                (case anchor sel of
                   None \<Rightarrow> Some (sel\<lparr>selected := {item}, anchor := Some item\<rparr>)
                 | Some a \<Rightarrow>
                     (case (index_of (universe sel) a, index_of (universe sel) item) of
                        (Some i, Some j) \<Rightarrow>
                          Some (sel\<lparr>selected :=
                                   set (map (\<lambda>k. universe sel ! k) [min i j ..< Suc (max i j)])\<rparr>)
                      | _ \<Rightarrow> None))))"

subsection \<open>The view model\<close>

record FSViewModel =
  cwd :: ref
  selection :: "ref Selection"
  expandedDirs :: "ref set"

text \<open>
  \<^verbatim>\<open>
  create(type, name) {
      name = name.trim()
      if (!name) { throw new Error("cannot create an item with an empty name") }
      return type === "file" ? new File(name) : new Directory(name)
  }
  \<close>
  A new object takes the next free index of the store; a new \<^verbatim>\<open>File\<close> has
  \<^verbatim>\<open>parent = null\<close>, a new \<^verbatim>\<open>Directory\<close> also \<^verbatim>\<open>deleted = false\<close> and no children.
\<close>

definition FSViewModel_create :: "FSType \<Rightarrow> string \<Rightarrow> heap \<Rightarrow> error + heap \<times> ref" where
  "FSViewModel_create ty nm h =
     (let nm' = String_trim nm in
      if nm' = [] then Inl (Error ''cannot create an item with an empty name'')
      else if ty = type_file then Inr (h @ [File nm' None], length h)
      else Inr (h @ [Directory nm' None False []], length h))"

text \<open>
  \<^verbatim>\<open>
  deleteSelection() {
      for (const item of this.selection.items) { item.parent?.delete(item) }
      this.selection = new Selection(this.cwd.children)
  }
  \<close>
\<close>

definition FSViewModel_deleteSelection ::
  "collation \<Rightarrow> nat \<Rightarrow> heap \<times> FSViewModel \<Rightarrow> (heap \<times> FSViewModel) option" where
  "FSViewModel_deleteSelection lc n s =
     (case s of (h, this) \<Rightarrow>
        do {
          h' \<leftarrow> for_of (Selection_items (selection this))
                  (\<lambda>h item. case get h item of
                               None \<Rightarrow> None
                             | Some obj \<Rightarrow>
                                 (case parent obj of
                                    None \<Rightarrow> Some h
                                  | Some p \<Rightarrow> Directory_delete lc n h p item)) h;
          cs \<leftarrow> Directory_children lc h' (cwd this);
          Some (h', this\<lparr>selection := Selection_new cs\<rparr>)
        })"

subsection \<open>The virtualizer\<close>

text \<open>
  Modelled from the spec: the component \<^verbatim>\<open>Virtualizer\<close> of \<^verbatim>\<open>./virtualizer\<close>, which the
  directory view renders its rows with. A layout pass is a function of the row sequence,
  the fixed row height, the scroll offset, the viewport height and the overscan margin.
  Row \<open>i\<close> occupies the pixels from \<open>i * itemHeight\<close> up to the next row; it is visible
  when it meets the viewport, which starts at the scroll offset.
\<close>

definition row_visible :: "int \<Rightarrow> int \<Rightarrow> int \<Rightarrow> int \<Rightarrow> bool" where
  "row_visible itemHeight scrollOffset viewportHeight i =
     (i * itemHeight < scrollOffset + viewportHeight \<and> scrollOffset < (i + 1) * itemHeight)"

text \<open>Modelled from the spec: the first and the last visible row index.\<close>

definition first_visible :: "int \<Rightarrow> int \<Rightarrow> int" where
  "first_visible itemHeight scrollOffset = scrollOffset div itemHeight"

definition last_visible :: "int \<Rightarrow> int \<Rightarrow> int \<Rightarrow> int" where
  "last_visible itemHeight scrollOffset viewportHeight =
     (scrollOffset + viewportHeight - 1) div itemHeight"

text \<open>
  Modelled from the spec: a materialized row is the row's index, its element and the
  vertical offset of its positioning directive; the layout is the total scrollable extent
  and the materialized rows, those from the first to the last visible index widened by the
  overscan margin on both sides, within the sequence.
\<close>

record 'a rendered =
  index :: nat
  element :: 'a
  top_px :: int

record 'a layout =
  totalHeight :: int
  rendered_rows :: "'a rendered list"

definition Virtualizer_layout :: "'a list \<Rightarrow> int \<Rightarrow> int \<Rightarrow> int \<Rightarrow> nat \<Rightarrow> 'a layout" where
  "Virtualizer_layout items itemHeight scrollOffset viewportHeight overscan =
     (let lo = nat (max 0 (first_visible itemHeight scrollOffset - int overscan));
          hi = nat (min (int (length items))
                        (last_visible itemHeight scrollOffset viewportHeight + int overscan + 1))
      in \<lparr>totalHeight = int (length items) * itemHeight,
          rendered_rows =
            map (\<lambda>i. \<lparr>index = i, element = items ! i, top_px = int i * itemHeight\<rparr>) [lo ..< hi]\<rparr>)"

section \<open>Notions for the properties\<close>

text \<open>The internal children behind a reference: none for a file.\<close>

definition kids :: "heap \<Rightarrow> ref \<Rightarrow> ref list" where
  "kids h r = (case get h r of Some (Directory _ _ _ cs) \<Rightarrow> cs | _ \<Rightarrow> [])"

text \<open>\<open>within h r x\<close>: \<open>x\<close> is \<open>r\<close> or a descendant of \<open>r\<close> along the child lists.\<close>

inductive within :: "heap \<Rightarrow> ref \<Rightarrow> ref \<Rightarrow> bool" for h :: heap where
  here: "within h r r"
| below: "c \<in> set (kids h r) \<Longrightarrow> within h c x \<Longrightarrow> within h r x"

text \<open>
  \<open>depth_within n h r\<close>: every reference reached from \<open>r\<close> along the child lists is an
  object, and no path of child references from \<open>r\<close> has more than \<open>n\<close> objects. So
  there is no cycle below \<open>r\<close>, and \<open>n\<close> is at least one.
\<close>

fun depth_within :: "nat \<Rightarrow> heap \<Rightarrow> ref \<Rightarrow> bool" where
  "depth_within 0 h r = False"
| "depth_within (Suc n) h r =
     (case get h r of
        None \<Rightarrow> False
      | Some (File _ _) \<Rightarrow> True
      | Some (Directory _ _ _ cs) \<Rightarrow> list_all (depth_within n h) cs)"

text \<open>
  \<open>ancestry h rs\<close>: \<open>rs\<close> lists an item, its parent, the parent's parent and so on, and
  ends with a root, an object without a parent.
\<close>

fun ancestry :: "heap \<Rightarrow> ref list \<Rightarrow> bool" where
  "ancestry h [] = False"
| "ancestry h [r] = (map_option parent (get h r) = Some None)"
| "ancestry h (r # p # ps) = (map_option parent (get h r) = Some (Some p) \<and> ancestry h (p # ps))"


fun compare_code_units :: collation where
  "compare_code_units [] [] = 0"
| "compare_code_units [] (y # ys) = - 1"
| "compare_code_units (x # xs) [] = 1"
| "compare_code_units (x # xs) (y # ys) =
     (if (of_char x :: nat) < of_char y then - 1
      else if (of_char y :: nat) < of_char x then 1
      else compare_code_units xs ys)"

text \<open>
  An object shrinks when it keeps its class, name and parent, a directory's children only
  go and its tombstone only comes; a store shrinks when each object does.
\<close>

definition obj_shrinks :: "FSItem \<Rightarrow> FSItem \<Rightarrow> bool" where
  "obj_shrinks a b =
     (case a of
        File _ _ \<Rightarrow> b = a
      | Directory nm p del cs \<Rightarrow>
          (\<exists>del' cs'. b = Directory nm p del' cs' \<and> set cs' \<subseteq> set cs \<and> (del \<longrightarrow> del')))"

definition shrinks :: "heap \<Rightarrow> heap \<Rightarrow> bool" where
  "shrinks h h' = list_all2 obj_shrinks h h'"

text \<open>An object is cleared when it is not a directory with children or without tombstone.\<close>

definition cleared :: "heap \<Rightarrow> ref \<Rightarrow> bool" where
  "cleared h r =
     (case get h r of Some (Directory _ _ del cs) \<Rightarrow> del \<and> cs = [] | _ \<Rightarrow> True)"

text \<open>
  The invariant of the cascade, from the store \<open>h0\<close> it started in: where a child
  reference has gone, everything that was below it is cleared.
\<close>

definition cascade_inv :: "heap \<Rightarrow> heap \<Rightarrow> bool" where
  "cascade_inv h0 h =
     (\<forall>p q. q \<in> set (kids h0 p) \<and> q \<notin> set (kids h p) \<longrightarrow> (\<forall>x. within h0 q x \<longrightarrow> cleared h x))"

text \<open>The reference is a directory of the store.\<close>

definition is_dir :: "heap \<Rightarrow> ref \<Rightarrow> bool" where
  "is_dir h r = (case get h r of Some (Directory _ _ _ _) \<Rightarrow> True | _ \<Rightarrow> False)"

text \<open>
  \<^verbatim>\<open>item.deleted\<close> read on an item of either class: \<^verbatim>\<open>undefined\<close> (here \<open>None\<close>) on a
  \<^verbatim>\<open>File\<close>, which has no such field.
\<close>

definition read_deleted :: "heap \<Rightarrow> ref \<Rightarrow> bool option" where
  "read_deleted h r = (case get h r of Some (Directory _ _ del _) \<Rightarrow> Some del | _ \<Rightarrow> None)"

subsection \<open>The children getter as a computed value\<close>







section \<open>Properties\<close>

subsection \<open>The extension of a file name\<close>

lemma String_split_not_Nil: "String_split sep s \<noteq> []"
  by (induction s) (auto split: list.splits)

lemma length_String_split: "length (String_split sep s) = Suc (length (filter (\<lambda>x. x = sep) s))"
  by (induction s) (auto split: list.splits)

lemma String_split_single: "(\<exists>p. String_split sep s = [p]) \<longleftrightarrow> sep \<notin> set s"
proof -
  have "(\<exists>p. String_split sep s = [p]) \<longleftrightarrow> length (String_split sep s) = 1"
    by (cases "String_split sep s") auto
  also have "\<dots> \<longleftrightarrow> filter (\<lambda>x. x = sep) s = []"
    by (simp add: length_String_split)
  also have "\<dots> \<longleftrightarrow> sep \<notin> set s"
    by (auto simp: filter_empty_conv)
  finally show ?thesis .
qed

lemma after_last_absent: "sep \<notin> set s \<Longrightarrow> after_last sep s = s"
  by (induction s rule: rev_induct) (auto simp: after_last_def)

lemma after_last_Cons: "sep \<in> set s \<Longrightarrow> after_last sep (c # s) = after_last sep s"
  using takeWhile_append1 [of sep "rev s" "\<lambda>x. x \<noteq> sep" "[c]"]
  by (simp add: after_last_def)

lemma last_String_split: "last (String_split sep s) = after_last sep s"
proof (induction s)
  case Nil
  show ?case by (simp add: after_last_def)
next
  case (Cons c cs)
  show ?case
  proof (cases "c = sep")
    case True
    then show ?thesis
      using Cons String_split_not_Nil [of sep cs]
      by (simp add: after_last_def takeWhile_append)
  next
    case False
    obtain p ps where ps: "String_split sep cs = p # ps"
      using String_split_not_Nil [of sep cs] by (cases "String_split sep cs") auto
    show ?thesis
    proof (cases ps)
      case Nil
      then have "sep \<notin> set cs"
        using String_split_single [of sep cs] ps by blast
      then have "after_last sep (c # cs) = c # cs" "after_last sep cs = cs"
        using False by (simp_all add: after_last_absent)
      then show ?thesis using False Cons ps Nil
        by simp
    next
      case (Cons q qs)
      then have "sep \<in> set cs"
        using String_split_single [of sep cs] ps by auto
      then have "after_last sep (c # cs) = after_last sep cs"
        by (rule after_last_Cons)
      then show ?thesis using False Cons.IH ps Cons
        by simp
    qed
  qed
qed

text \<open>
  C2 (as amended). The extension of a file is the part of its name after the last dot when
  the name has a dot, and empty when it has none. A name that only starts with a dot has a
  dot: its extension is the rest of the name, so \<^verbatim>\<open>.gitignore\<close> has the extension
  \<^verbatim>\<open>gitignore\<close>, not the empty one.
\<close>

theorem File_ext_after_last_dot:
  "File_ext f = (if CHR ''.'' \<in> set (name f) then after_last CHR ''.'' (name f) else [])"
proof (cases "CHR ''.'' \<in> set (name f)")
  case True
  then have "filter (\<lambda>x. x = CHR ''.'') (name f) \<noteq> []"
    by (simp add: filter_empty_conv)
  then have len: "length (String_split CHR ''.'' (name f)) \<noteq> 1"
    by (simp add: length_String_split)
  have "Array_at_last (String_split CHR ''.'' (name f)) = Some (after_last CHR ''.'' (name f))"
    using String_split_not_Nil [of "CHR ''.''" "name f"] last_String_split [of "CHR ''.''" "name f"]
    by (cases "String_split CHR ''.'' (name f)") (simp_all add: Array_at_last_def)
  then show ?thesis using True len by (simp add: File_ext_def Let_def)
next
  case False
  then have len: "length (String_split CHR ''.'' (name f)) = 1"
    by (auto simp: length_String_split filter_empty_conv)
  have "\<not> String_startsWith (name f) ''.''"
    using False by (cases "name f") auto
  then show ?thesis using False len by (simp add: File_ext_def Let_def)
qed

theorem File_ext_after_last_dot_witness:
  "File_ext (File ''report.tar.gz'' None) = ''gz'' \<and>
   File_ext (File ''README'' None) = [] \<and>
   File_ext (File ''.gitignore'' None) = ''gitignore''"
  using File_ext_after_last_dot [of "File ''report.tar.gz'' None"]
    File_ext_after_last_dot [of "File ''README'' None"]
    File_ext_after_last_dot [of "File ''.gitignore'' None"]
  by (simp add: after_last_def)

text \<open>
  C2 as stated fails: the claim gives \<^verbatim>\<open>File(".gitignore").ext\<close> as the empty string.
\<close>

theorem File_ext_gitignore_counterexample:
  "File_ext (File ''.gitignore'' None) \<noteq> []"
  by (simp add: File_ext_def Array_at_last_def)

subsection \<open>The store and the sort\<close>

lemma get_list_update:
  "get (h[r := v]) r' = (if r' = r \<and> r < length h then Some v else get h r')"
  by (simp add: get_def)

lemma get_Some_length: "get h r = Some obj \<Longrightarrow> r < length h"
  by (simp add: get_def split: if_splits)

lemma set_insert_sorted: "set (insert_sorted cmp x ys) = insert x (set ys)"
  by (induction ys) auto

lemma set_Array_sort: "set (Array_sort cmp xs) = set xs"
  by (induction xs) (simp_all add: Array_sort_def set_insert_sorted)


subsection \<open>Adding to a directory\<close>

text \<open>
  C4. \<^verbatim>\<open>Directory.add(item)\<close> on a directory whose \<^verbatim>\<open>deleted\<close> flag is set fails with
  the error the spec calls InvalidOperation. On a directory that is not deleted it
  returns the item, and in the new store the item's parent is the receiver, the
  receiver's internal children are the old ones followed by the item, and the other
  objects are as before.
\<close>

theorem Directory_add_spec:
  assumes "get h this = Some (Directory nm p del cs)"
  shows "(del \<longrightarrow> Directory_add h this item = Inl InvalidOperation) \<and>
         (\<not> del \<longrightarrow> get h item = Some obj \<longrightarrow>
            (\<exists>h'. Directory_add h this item = Inr (h', item) \<and>
                  length h' = length h \<and>
                  map_option parent (get h' item) = Some (Some this) \<and>
                  map_option name (get h' item) = Some (name obj) \<and>
                  map_option priv_children (get h' this) = Some (cs @ [item]) \<and>
                  map_option deleted (get h' this) = Some False \<and>
                  (\<forall>r. r \<noteq> item \<and> r \<noteq> this \<longrightarrow> get h' r = get h r)))"
proof (intro conjI impI)
  assume del
  then show "Directory_add h this item = Inl InvalidOperation"
    using assms by (simp add: Directory_add_def)
next
  assume nd: "\<not> del" and it: "get h item = Some obj"
  have lt: "this < length h" "item < length h"
    using assms it by (auto dest: get_Some_length)
  show "\<exists>h'. Directory_add h this item = Inr (h', item) \<and>
                  length h' = length h \<and>
                  map_option parent (get h' item) = Some (Some this) \<and>
                  map_option name (get h' item) = Some (name obj) \<and>
                  map_option priv_children (get h' this) = Some (cs @ [item]) \<and>
                  map_option deleted (get h' this) = Some False \<and>
                  (\<forall>r. r \<noteq> item \<and> r \<noteq> this \<longrightarrow> get h' r = get h r)"
    using assms it nd lt
    by (cases obj; cases "item = this")
       (auto simp: Directory_add_def set_parent_def push_child_def get_list_update)
qed

theorem Directory_add_spec_witness:
  "Directory_add [Directory ''root'' None False [], File ''a.txt'' None, Directory ''old'' None True []] 2 1
     = Inl InvalidOperation \<and>
   Directory_add [Directory ''root'' None False [], File ''a.txt'' None, Directory ''old'' None True []] 0 1
     = Inr ([Directory ''root'' None False [1], File ''a.txt'' (Some 0), Directory ''old'' None True []], 1)"
  using Directory_add_spec [of "[Directory ''root'' None False [], File ''a.txt'' None, Directory ''old'' None True []]"
      2 "''old''" None True "[]" 1 "File ''a.txt'' None"]
    Directory_add_spec [of "[Directory ''root'' None False [], File ''a.txt'' None, Directory ''old'' None True []]"
      0 "''root''" None False "[]" 1 "File ''a.txt'' None"]
  by (simp add: get_def Directory_add_def set_parent_def push_child_def)

subsection \<open>Creating an item\<close>

lemma String_trim_Nil_iff: "String_trim s = [] \<longleftrightarrow> (\<forall>c\<in>set s. is_white_space c)"
proof
  assume "String_trim s = []"
  then have "dropWhile is_white_space (rev (dropWhile is_white_space s)) = []"
    by (simp add: String_trim_def)
  then have "\<forall>c\<in>set (dropWhile is_white_space s). is_white_space c"
    by (simp only: dropWhile_eq_Nil_conv set_rev)
  then have "dropWhile is_white_space s = []"
    using hd_dropWhile [of is_white_space s] by (cases "dropWhile is_white_space s") auto
  then show "\<forall>c\<in>set s. is_white_space c"
    by (simp only: dropWhile_eq_Nil_conv)
next
  assume "\<forall>c\<in>set s. is_white_space c"
  then have "dropWhile is_white_space s = []"
    by (simp only: dropWhile_eq_Nil_conv)
  then show "String_trim s = []"
    unfolding String_trim_def by (simp only: rev.simps dropWhile.simps)
qed

text \<open>
  C5. \<^verbatim>\<open>create(type, name)\<close> trims the name. When the trimmed name is empty, as it is
  for the name of three spaces, the call fails with the error the spec calls
  InvalidArgument. Otherwise it returns a new object, a File or a Directory according to
  the type, named by the trimmed name, with no parent, at a reference that was free; the
  objects of the store are as before, so no directory has it as a child.
\<close>

theorem FSViewModel_create_spec:
  "String_trim ''   '' = [] \<and>
   (String_trim nm = [] \<longrightarrow> FSViewModel_create ty nm h = Inl InvalidArgument) \<and>
   (String_trim nm \<noteq> [] \<longrightarrow>
      FSViewModel_create ty nm h =
        Inr (h @ [case ty of type_file \<Rightarrow> File (String_trim nm) None
                  | type_directory \<Rightarrow> Directory (String_trim nm) None False []], length h) \<and>
      (\<forall>h' r. FSViewModel_create ty nm h = Inr (h', r) \<longrightarrow>
         get h r = None \<and>
         map_option parent (get h' r) = Some None \<and>
         map_option name (get h' r) = Some (String_trim nm) \<and>
         (\<forall>r'. r' \<noteq> r \<longrightarrow> get h' r' = get h r')))"
proof (intro conjI impI allI)
  show "String_trim ''   '' = []"
    by (simp add: String_trim_def is_white_space_def)
next
  assume "String_trim nm = []"
  then show "FSViewModel_create ty nm h = Inl InvalidArgument"
    by (simp add: FSViewModel_create_def)
next
  assume ne: "String_trim nm \<noteq> []"
  then show eq: "FSViewModel_create ty nm h =
        Inr (h @ [case ty of type_file \<Rightarrow> File (String_trim nm) None
                  | type_directory \<Rightarrow> Directory (String_trim nm) None False []], length h)"
    by (cases ty) (simp_all add: FSViewModel_create_def)
  fix h' r
  assume "FSViewModel_create ty nm h = Inr (h', r)"
  with eq have h': "h' = h @ [case ty of type_file \<Rightarrow> File (String_trim nm) None
                  | type_directory \<Rightarrow> Directory (String_trim nm) None False []]"
    and r: "r = length h" by simp_all
  show "get h r = None" using r by (simp add: get_def)
  show "map_option parent (get h' r) = Some None"
    using h' r by (cases ty) (simp_all add: get_def)
  show "map_option name (get h' r) = Some (String_trim nm)"
    using h' r by (cases ty) (simp_all add: get_def)
  show "\<And>r'. r' \<noteq> r \<Longrightarrow> get h' r' = get h r'"
    using h' r by (auto simp: get_def nth_append)
qed

theorem FSViewModel_create_spec_witness:
  "FSViewModel_create type_file ''   '' [] = Inl InvalidArgument \<and>
   FSViewModel_create type_file '' notes.txt '' [] = Inr ([File ''notes.txt'' None], 0) \<and>
   FSViewModel_create type_directory ''src'' [File ''notes.txt'' None]
     = Inr ([File ''notes.txt'' None, Directory ''src'' None False []], 1)"
proof -
  have t: "String_trim '' notes.txt '' = ''notes.txt''" "String_trim ''src'' = ''src''"
    by (simp_all add: String_trim_def is_white_space_def)
  have ne: "String_trim '' notes.txt '' \<noteq> []" "String_trim ''src'' \<noteq> []"
    by (simp_all add: t)
  have a: "FSViewModel_create type_file ''   '' [] = Inl InvalidArgument"
    using FSViewModel_create_spec [of "''   ''" type_file "[]"] by blast
  have b: "FSViewModel_create type_file '' notes.txt '' [] = Inr ([File ''notes.txt'' None], 0)"
    using FSViewModel_create_spec [of "'' notes.txt ''" type_file "[]",
        THEN conjunct2, THEN conjunct2, THEN mp, OF ne(1), THEN conjunct1]
    by (simp add: t)
  have c: "FSViewModel_create type_directory ''src'' [File ''notes.txt'' None]
     = Inr ([File ''notes.txt'' None, Directory ''src'' None False []], 1)"
    using FSViewModel_create_spec [of "''src''" type_directory "[File ''notes.txt'' None]",
        THEN conjunct2, THEN conjunct2, THEN mp, OF ne(2), THEN conjunct1]
    by (simp add: t)
  show ?thesis using a b c by (intro conjI)
qed

text \<open>
  C10. When an item is among the internal children of a directory \<open>d1\<close>, and \<open>d2\<close> is
  another directory that is not deleted, \<^verbatim>\<open>d2.add(item)\<close> succeeds and leaves the item
  in \<open>d1\<close>: afterwards the item's parent is \<open>d2\<close> and the item is in the children read
  from \<open>d1\<close> and in the children read from \<open>d2\<close>. So \<^verbatim>\<open>add\<close> does not keep the tree
  single-parented.
\<close>

theorem Directory_add_keeps_old_membership:
  assumes "get h d1 = Some (Directory n1 p1 del1 cs1)" and "item \<in> set cs1"
    and "get h d2 = Some (Directory n2 p2 False cs2)" and "d1 \<noteq> d2"
    and "get h item = Some obj"
  shows "\<exists>h' xs1 xs2. Directory_add h d2 item = Inr (h', item) \<and>
           map_option parent (get h' item) = Some (Some d2) \<and>
           Directory_children lc h' d1 = Some xs1 \<and> item \<in> set xs1 \<and>
           Directory_children lc h' d2 = Some xs2 \<and> item \<in> set xs2"
proof -
  have lt: "d1 < length h" "d2 < length h" "item < length h"
    using assms by (auto dest: get_Some_length)
  show ?thesis
    using assms lt
    by (cases obj; cases "item = d1"; cases "item = d2")
       (auto simp: Directory_add_def set_parent_def push_child_def get_list_update
          Directory_children_def set_Array_sort)
qed

theorem Directory_add_keeps_old_membership_witness:
  "Directory_add [Directory ''d1'' None False [2], Directory ''d2'' None False [], File ''f'' (Some 0)] 1 2
     = Inr ([Directory ''d1'' None False [2], Directory ''d2'' None False [2], File ''f'' (Some 1)], 2) \<and>
   Directory_children compare_code_units
     [Directory ''d1'' None False [2], Directory ''d2'' None False [2], File ''f'' (Some 1)] 0 = Some [2] \<and>
   Directory_children compare_code_units
     [Directory ''d1'' None False [2], Directory ''d2'' None False [2], File ''f'' (Some 1)] 1 = Some [2]"
  using Directory_add_keeps_old_membership
    [of "[Directory ''d1'' None False [2], Directory ''d2'' None False [], File ''f'' (Some 0)]"
      0 "''d1''" None False "[2]" 2 1 "''d2''" None "[]" "File ''f'' (Some 0)" compare_code_units]
  by (simp add: get_def Directory_add_def set_parent_def push_child_def Directory_children_def
      Array_sort_def)

subsection \<open>Paths\<close>

lemma filepath_loop_ancestry:
  "ancestry h (item # ups) \<Longrightarrow> length ups < n \<Longrightarrow>
   filepath_loop n h item parts = Some (map (name_of h) (rev (item # ups)) @ parts)"
proof (induction n arbitrary: item ups parts)
  case 0
  then show ?case by simp
next
  case (Suc n)
  show ?case
  proof (cases ups)
    case Nil
    then show ?thesis using Suc.prems
      by (auto simp: name_of_def split: option.splits)
  next
    case (Cons p ps)
    then have par: "map_option parent (get h item) = Some (Some p)" and anc: "ancestry h (p # ps)"
      and len: "length ps < n"
      using Suc.prems by simp_all
    from par obtain obj where obj: "get h item = Some obj" "parent obj = Some p"
      by (cases "get h item") auto
    have "filepath_loop n h p (name obj # parts) = Some (map (name_of h) (rev (p # ps)) @ name obj # parts)"
      using Suc.IH [OF anc len] .
    then show ?thesis using obj Cons
      by (simp add: name_of_def)
  qed
qed

text \<open>
  C6. \<^verbatim>\<open>filepath\<close> walks the parent references from the item up to the root and joins
  the names with a slash, the root's name first. It returns as soon as the bound on its
  iterations exceeds the number of ancestors. For a root with the empty name, a
  directory \<^verbatim>\<open>a\<close> in it and a file \<^verbatim>\<open>b.txt\<close> in that, the file's path is
  \<^verbatim>\<open>/a/b.txt\<close>.
\<close>

theorem filepath_joins_parent_chain:
  "(ancestry h (item # ups) \<and> length ups < n \<longrightarrow>
      filepath n h item = Some (Array_join ''/'' (map (name_of h) (rev (item # ups))))) \<and>
   (get h r = Some (Directory [] None dr cr) \<and>
    get h a = Some (Directory ''a'' (Some r) da ca) \<and>
    get h f = Some (File ''b.txt'' (Some a)) \<and> 3 \<le> n \<longrightarrow>
      filepath n h f = Some ''/a/b.txt'')"
proof (intro conjI impI)
  assume "ancestry h (item # ups) \<and> length ups < n"
  then show "filepath n h item = Some (Array_join ''/'' (map (name_of h) (rev (item # ups))))"
    using filepath_loop_ancestry [of h item ups n "[]"] by (simp add: filepath_def)
next
  assume a: "get h r = Some (Directory [] None dr cr) \<and>
    get h a = Some (Directory ''a'' (Some r) da ca) \<and>
    get h f = Some (File ''b.txt'' (Some a)) \<and> 3 \<le> n"
  then have "ancestry h [f, a, r]" and "length [a, r] < n" by simp_all
  then have "filepath_loop n h f [] = Some (map (name_of h) (rev [f, a, r]) @ [])"
    by (rule filepath_loop_ancestry)
  then show "filepath n h f = Some ''/a/b.txt''"
    using a by (simp add: filepath_def name_of_def)
qed

theorem filepath_joins_parent_chain_witness:
  "filepath 3 [Directory [] None False [1], Directory ''a'' (Some 0) False [2], File ''b.txt'' (Some 1)] 2
     = Some ''/a/b.txt'' \<and>
   filepath 5 [Directory [] None False [1], Directory ''foo'' (Some 0) False [2], Directory ''bar'' (Some 1) False []] 2
     = Some ''/foo/bar''"
proof -
  let ?h = "[Directory [] None False [1], Directory ''a'' (Some 0) False [2], File ''b.txt'' (Some 1)]"
  let ?g = "[Directory [] None False [1], Directory ''foo'' (Some 0) False [2], Directory ''bar'' (Some 1) False []]"
  have "get ?h 0 = Some (Directory [] None False [1]) \<and>
        get ?h 1 = Some (Directory ''a'' (Some 0) False [2]) \<and>
        get ?h 2 = Some (File ''b.txt'' (Some 1)) \<and> (3::nat) \<le> 3"
    by (simp add: get_def)
  then have a: "filepath 3 ?h 2 = Some ''/a/b.txt''"
    using filepath_joins_parent_chain [of ?h 2 "[]" 3 0 False "[1]" 1 False "[2]" 2] by blast
  have "ancestry ?g [2, 1, 0] \<and> length [1, 0 :: nat] < 5"
    by (simp add: get_def)
  then have "filepath 5 ?g 2 = Some (Array_join ''/'' (map (name_of ?g) (rev [2, 1, 0])))"
    using filepath_joins_parent_chain [of ?g 2 "[1, 0]" 5] by blast
  then have b: "filepath 5 ?g 2 = Some ''/foo/bar''"
    by (simp add: name_of_def get_def)
  show ?thesis using a b by (intro conjI)
qed

subsection \<open>The selection scenario\<close>

text \<open>
  C8. Over the universe of five distinct items a, b, c, d, e: a plain click on c selects
  c alone and anchors it; a range click on e then selects c, d, e and leaves the anchor at
  c; a toggle click on a then gives a, c, d, e with the anchor at a; a range click on c
  then gives a, b, c, the items whose index lies between the anchor's and the item's.
\<close>

theorem Selection_click_scenario:
  assumes "distinct [a, b, c, d, e]"
  shows "\<exists>s1 s2 s3 s4.
    Selection_fromClickEvent c Plain (Selection_new [a, b, c, d, e]) = Some s1 \<and>
    selected s1 = {c} \<and> anchor s1 = Some c \<and>
    Selection_fromClickEvent e Range s1 = Some s2 \<and>
    selected s2 = {c, d, e} \<and> anchor s2 = Some c \<and>
    Selection_fromClickEvent a Toggle s2 = Some s3 \<and>
    selected s3 = {a, c, d, e} \<and> anchor s3 = Some a \<and>
    Selection_fromClickEvent c Range s3 = Some s4 \<and>
    selected s4 = {a, b, c} \<and> anchor s4 = Some a \<and>
    universe s4 = [a, b, c, d, e] \<and> Selection_items s4 = [a, b, c]"
proof -
  let ?u = "[a, b, c, d, e]"
  let ?s1 = "\<lparr>universe = ?u, selected = {c}, anchor = Some c\<rparr>"
  let ?s2 = "\<lparr>universe = ?u, selected = {c, d, e}, anchor = Some c\<rparr>"
  let ?s3 = "\<lparr>universe = ?u, selected = {a, c, d, e}, anchor = Some a\<rparr>"
  let ?s4 = "\<lparr>universe = ?u, selected = {a, b, c}, anchor = Some a\<rparr>"
  have 1: "Selection_fromClickEvent c Plain (Selection_new ?u) = Some ?s1"
    by (simp add: Selection_fromClickEvent_def Selection_new_def)
  have 2: "Selection_fromClickEvent e Range ?s1 = Some ?s2"
    using assms by (auto simp: Selection_fromClickEvent_def)
  have 3: "Selection_fromClickEvent a Toggle ?s2 = Some ?s3"
    using assms by (auto simp: Selection_fromClickEvent_def)
  have 4: "Selection_fromClickEvent c Range ?s3 = Some ?s4"
    using assms by (auto simp: Selection_fromClickEvent_def)
  have 5: "Selection_items ?s4 = [a, b, c]"
    using assms by (auto simp: Selection_items_def)
  show ?thesis
    apply (rule exI [of _ ?s1], rule exI [of _ ?s2], rule exI [of _ ?s3], rule exI [of _ ?s4])
    using 1 2 3 4 5 by simp
qed

theorem Selection_click_scenario_witness:
  "\<exists>s1 s2 s3 s4.
    Selection_fromClickEvent ''c'' Plain (Selection_new [''a'', ''b'', ''c'', ''d'', ''e'']) = Some s1 \<and>
    selected s1 = {''c''} \<and> anchor s1 = Some ''c'' \<and>
    Selection_fromClickEvent ''e'' Range s1 = Some s2 \<and>
    selected s2 = {''c'', ''d'', ''e''} \<and> anchor s2 = Some ''c'' \<and>
    Selection_fromClickEvent ''a'' Toggle s2 = Some s3 \<and>
    selected s3 = {''a'', ''c'', ''d'', ''e''} \<and> anchor s3 = Some ''a'' \<and>
    Selection_fromClickEvent ''c'' Range s3 = Some s4 \<and>
    selected s4 = {''a'', ''b'', ''c''} \<and> anchor s4 = Some ''a'' \<and>
    universe s4 = [''a'', ''b'', ''c'', ''d'', ''e''] \<and> Selection_items s4 = [''a'', ''b'', ''c'']"
proof -
  have "distinct [''a'', ''b'', ''c'', ''d'', ''e'']" by simp
  then show ?thesis by (rule Selection_click_scenario)
qed

subsection \<open>The virtualizer\<close>

lemma div_le_iff_int:
  fixes ih off i :: int
  assumes "0 < ih"
  shows "off div ih \<le> i \<longleftrightarrow> off < (i + 1) * ih"
proof -
  define q where "q = off div ih"
  define r where "r = off mod ih"
  have off: "off = q * ih + r" by (simp add: q_def r_def)
  have r: "0 \<le> r" "r < ih" using assms by (simp_all add: r_def)
  show ?thesis
  proof
    assume "off div ih \<le> i"
    then have "q * ih \<le> i * ih"
      using assms by (simp add: mult_right_mono q_def)
    then have "q * ih + r < i * ih + ih" using r by linarith
    then show "off < (i + 1) * ih" by (simp add: off distrib_right)
  next
    assume lt: "off < (i + 1) * ih"
    show "off div ih \<le> i"
    proof (rule ccontr)
      assume "\<not> off div ih \<le> i"
      then have "i + 1 \<le> q" by (simp add: q_def)
      then have "(i + 1) * ih \<le> q * ih"
        using assms by (simp only: mult_right_mono less_imp_le)
      then show False using lt r off by linarith
    qed
  qed
qed

lemma visible_span:
  assumes "0 < ih"
  shows "row_visible ih off vh i \<longleftrightarrow> first_visible ih off \<le> i \<and> i \<le> last_visible ih off vh"
proof -
  have a: "off < (i + 1) * ih \<longleftrightarrow> off div ih \<le> i"
    using div_le_iff_int [OF assms, of off i] by simp
  have "(off + vh - 1) div ih \<le> i - 1 \<longleftrightarrow> off + vh - 1 < (i - 1 + 1) * ih"
    using assms by (rule div_le_iff_int)
  then have b: "i * ih < off + vh \<longleftrightarrow> i \<le> (off + vh - 1) div ih"
    by auto
  show ?thesis
    unfolding row_visible_def first_visible_def last_visible_def using a b by blast
qed

text \<open>
  C9. The layout reports the total scrollable extent as the number of rows times the row
  height, whatever the scroll offset, the viewport and the overscan, hence whatever is
  materialized. Every materialized row is a row of the sequence, placed at its index
  times the row height. Without overscan the materialized rows are those that meet the
  viewport. For 1000 rows of height 24, a viewport of height 240 and the scroll offset
  480 the extent is 24000 and the rows are those of index 20 to 29, widened by the
  overscan on both sides within the sequence.
\<close>

theorem Virtualizer_layout_spec:
  "totalHeight (Virtualizer_layout items ih off vh k) = int (length items) * ih \<and>
   (\<forall>r \<in> set (rendered_rows (Virtualizer_layout items ih off vh k)).
      index r < length items \<and> element r = items ! index r \<and> top_px r = int (index r) * ih) \<and>
   (0 < ih \<longrightarrow>
      (\<forall>i < length items.
         i \<in> index ` set (rendered_rows (Virtualizer_layout items ih off vh 0))
           \<longleftrightarrow> row_visible ih off vh (int i))) \<and>
   (length items = 1000 \<longrightarrow>
      totalHeight (Virtualizer_layout items 24 480 240 k) = 24000 \<and>
      map index (rendered_rows (Virtualizer_layout items 24 480 240 0)) = [20 ..< 30] \<and>
      map index (rendered_rows (Virtualizer_layout items 24 480 240 k))
        = [20 - k ..< min 1000 (30 + k)])"
proof (intro conjI impI ballI allI)
  show "totalHeight (Virtualizer_layout items ih off vh k) = int (length items) * ih"
    by (simp add: Virtualizer_layout_def Let_def)
next
  fix r
  assume "r \<in> set (rendered_rows (Virtualizer_layout items ih off vh k))"
  then obtain i where "i < length items" and "r = \<lparr>index = i, element = items ! i, top_px = int i * ih\<rparr>"
    by (auto simp: Virtualizer_layout_def Let_def)
  then show "index r < length items" "element r = items ! index r" "top_px r = int (index r) * ih"
    by simp_all
next
  fix i
  assume ih: "0 < ih" and i: "i < length items"
  have "index ` set (rendered_rows (Virtualizer_layout items ih off vh 0))
        = {nat (max 0 (first_visible ih off)) ..< nat (min (int (length items)) (last_visible ih off vh + 1))}"
    by (simp add: Virtualizer_layout_def Let_def image_image)
  moreover have "i \<in> {nat (max 0 (first_visible ih off)) ..< nat (min (int (length items)) (last_visible ih off vh + 1))}
        \<longleftrightarrow> first_visible ih off \<le> int i \<and> int i \<le> last_visible ih off vh"
    using i by auto
  ultimately show "i \<in> index ` set (rendered_rows (Virtualizer_layout items ih off vh 0))
           \<longleftrightarrow> row_visible ih off vh (int i)"
    using visible_span [OF ih] by simp
next
  assume len: "length items = 1000"
  have fl: "first_visible 24 480 = 20" "last_visible 24 480 240 = 29"
    by (simp_all add: first_visible_def last_visible_def)
  show "totalHeight (Virtualizer_layout items 24 480 240 k) = 24000"
    using len by (simp add: Virtualizer_layout_def Let_def)
  have idx: "map index (rendered_rows (Virtualizer_layout items 24 480 240 m))
        = [nat (max 0 (20 - int m)) ..< nat (min 1000 (30 + int m))]" for m
    using len by (simp add: Virtualizer_layout_def Let_def fl comp_def add.commute)
  show "map index (rendered_rows (Virtualizer_layout items 24 480 240 0)) = [20 ..< 30]"
    using idx [of 0] by simp
  have "nat (max 0 (20 - int k)) = 20 - k" "nat (min 1000 (30 + int k)) = min 1000 (30 + k)"
    by linarith+
  then show "map index (rendered_rows (Virtualizer_layout items 24 480 240 k))
        = [20 - k ..< min 1000 (30 + k)]"
    using idx [of k] by simp
qed

theorem Virtualizer_layout_spec_witness:
  "totalHeight (Virtualizer_layout (replicate 1000 [''row'']) 24 480 240 2) = 24000 \<and>
   map index (rendered_rows (Virtualizer_layout (replicate 1000 [''row'']) 24 480 240 0)) = [20 ..< 30] \<and>
   map index (rendered_rows (Virtualizer_layout (replicate 1000 [''row'']) 24 480 240 2)) = [18 ..< 32]"
proof -
  have len: "length (replicate 1000 [''row'']) = 1000" by simp
  have m: "(20::nat) - 2 = 18" "min 1000 (30 + 2) = (32::nat)" by simp_all
  show ?thesis
    using Virtualizer_layout_spec [of "replicate 1000 [''row'']" 24 480 240 2,
        THEN conjunct2, THEN conjunct2, THEN conjunct2, THEN mp, OF len]
    by (simp only: m) 
qed

subsection \<open>Reading the children\<close>

















subsection \<open>Cascading deletion\<close>

text \<open>Deleting only shrinks the store.\<close>

lemma obj_shrinks_refl: "obj_shrinks a a"
  by (cases a) (simp_all add: obj_shrinks_def)

lemma obj_shrinks_trans: "obj_shrinks a b \<Longrightarrow> obj_shrinks b c \<Longrightarrow> obj_shrinks a c"
  by (cases a) (auto simp: obj_shrinks_def; blast)+

lemma shrinks_refl: "shrinks h h"
  unfolding shrinks_def by (rule list_all2_refl) (rule obj_shrinks_refl)

lemma shrinks_trans: "shrinks h1 h2 \<Longrightarrow> shrinks h2 h3 \<Longrightarrow> shrinks h1 h3"
  unfolding shrinks_def
  using list_all2_trans [of obj_shrinks obj_shrinks obj_shrinks h1 h2 h3] obj_shrinks_trans
  by blast

lemma shrinks_length: "shrinks h h' \<Longrightarrow> length h' = length h"
  by (simp add: shrinks_def list_all2_lengthD)

lemma shrinks_get:
  "shrinks h h' \<Longrightarrow> get h r = Some a \<Longrightarrow> \<exists>b. get h' r = Some b \<and> obj_shrinks a b"
  by (auto simp: shrinks_def get_def list_all2_conv_all_nth split: if_splits)

lemma shrinks_update:
  "get h r = Some a \<Longrightarrow> obj_shrinks a b \<Longrightarrow> shrinks h (h[r := b])"
  unfolding shrinks_def get_def
  by (auto simp: list_all2_conv_all_nth nth_list_update obj_shrinks_refl split: if_splits)

lemma shrinks_Directory:
  assumes "shrinks h h'" and "get h r = Some (Directory nm p del cs)"
  shows "\<exists>del' cs'. get h' r = Some (Directory nm p del' cs') \<and> set cs' \<subseteq> set cs \<and> (del \<longrightarrow> del')"
  using shrinks_get [OF assms] by (auto simp: obj_shrinks_def)

lemma shrinks_File:
  assumes "shrinks h h'" and "get h r = Some (File nm p)"
  shows "get h' r = Some (File nm p)"
  using shrinks_get [OF assms] by (auto simp: obj_shrinks_def)

lemma kids_shrinks: "shrinks h h' \<Longrightarrow> set (kids h' r) \<subseteq> set (kids h r)"
proof (cases "get h r")
  case None
  assume "shrinks h h'"
  then have "get h' r = None"
    using None by (simp add: get_def shrinks_length split: if_splits)
  then show ?thesis by (simp add: kids_def)
next
  case (Some a)
  assume s: "shrinks h h'"
  show ?thesis
  proof (cases a)
    case (File nm p)
    then show ?thesis using shrinks_File [OF s] Some by (simp add: kids_def)
  next
    case (Directory nm p del cs)
    then show ?thesis using shrinks_Directory [OF s] Some by (fastforce simp: kids_def)
  qed
qed

lemma within_shrinks: "within h' r x \<Longrightarrow> shrinks h h' \<Longrightarrow> within h r x"
proof (induction rule: within.induct)
  case (here r)
  show ?case by (rule within.here)
next
  case (below c r x)
  then have "c \<in> set (kids h r)" using kids_shrinks by blast
  then show ?case using below by (auto intro: within.below)
qed

lemma cleared_shrinks: "shrinks h h' \<Longrightarrow> cleared h x \<Longrightarrow> cleared h' x"
proof (cases "get h x")
  case None
  assume "shrinks h h'"
  then have "get h' x = None"
    using None by (simp add: get_def shrinks_length split: if_splits)
  then show ?thesis by (simp add: cleared_def)
next
  case (Some a)
  assume s: "shrinks h h'" and c: "cleared h x"
  show ?thesis
  proof (cases a)
    case (File nm p)
    then show ?thesis using shrinks_File [OF s] Some by (simp add: cleared_def)
  next
    case (Directory nm p del cs)
    then show ?thesis using shrinks_Directory [OF s] Some c by (fastforce simp: cleared_def)
  qed
qed

lemma set_deleted_shrinks: "set_deleted h r = Some h' \<Longrightarrow> shrinks h h'"
  by (auto simp: set_deleted_def obj_shrinks_def intro!: shrinks_update
      split: option.splits FSItem.splits)

lemma remove_child_shrinks: "remove_child h r x = Some h' \<Longrightarrow> shrinks h h'"
  by (auto simp: remove_child_def obj_shrinks_def intro!: shrinks_update
      split: option.splits FSItem.splits)

lemma for_of_shrinks:
  assumes "\<And>s x s'. x \<in> set xs \<Longrightarrow> body s x = Some s' \<Longrightarrow> shrinks s s'"
  shows "for_of xs body s = Some s' \<Longrightarrow> shrinks s s'"
  using assms
proof (induction xs arbitrary: s)
  case Nil
  then show ?case by (simp add: shrinks_refl)
next
  case (Cons x xs)
  from Cons.prems(1) obtain s1 where s1: "body s x = Some s1" "for_of xs body s1 = Some s'"
    by (auto split: option.splits)
  have "shrinks s s1" using Cons.prems(2) [of x s s1] s1(1) by simp
  moreover have "shrinks s1 s'"
  proof (rule Cons.IH [OF s1(2)])
    fix t y t'
    assume "y \<in> set xs" "body t y = Some t'"
    then show "shrinks t t'" using Cons.prems(2) [of y t t'] by simp
  qed
  ultimately show ?case by (rule shrinks_trans)
qed

lemma Directory_delete_shrinks:
  "Directory_delete lc n h this item = Some h' \<Longrightarrow> shrinks h h'"
proof (induction n arbitrary: h this item h')
  case 0
  then show ?case by simp
next
  case (Suc n)
  from Suc.prems obtain h1 where
    h1: "(case get h item of
                None \<Rightarrow> None
              | Some (File _ _) \<Rightarrow> Some h
              | Some (Directory _ _ _ _) \<Rightarrow>
                  do {
                    snapshot \<leftarrow> Directory_children lc h item;
                    h' \<leftarrow> for_of snapshot (\<lambda>h' child. Directory_delete lc n h' item child) h;
                    set_deleted h' item
                  }) = Some h1"
    and rm: "remove_child h1 this item = Some h'"
    by (auto simp: bind_eq_Some_conv)
  have "shrinks h h1"
  proof (cases "get h item")
    case None
    then show ?thesis using h1 by simp
  next
    case (Some a)
    show ?thesis
    proof (cases a)
      case (File nm p)
      then show ?thesis using h1 Some by (simp add: shrinks_refl)
    next
      case (Directory nm p del cs)
      with h1 Some obtain snapshot h2 where
        "for_of snapshot (\<lambda>h' child. Directory_delete lc n h' item child) h = Some h2"
        "set_deleted h2 item = Some h1"
        by (auto simp: bind_eq_Some_conv)
      then show ?thesis
        using for_of_shrinks [of snapshot "\<lambda>h' child. Directory_delete lc n h' item child" h h2]
          Suc.IH set_deleted_shrinks shrinks_trans by blast
    qed
  qed
  then show ?case using remove_child_shrinks [OF rm] by (rule shrinks_trans)
qed

text \<open>The effect of the two assignments of \<^verbatim>\<open>delete\<close> on the child lists.\<close>

lemma kids_Directory: "get h r = Some (Directory nm p del cs) \<Longrightarrow> kids h r = cs"
  by (simp add: kids_def)

lemma kids_File: "get h r = Some (File nm p) \<Longrightarrow> kids h r = []"
  by (simp add: kids_def)

lemma is_dir_iff: "is_dir h r \<longleftrightarrow> (\<exists>nm p del cs. get h r = Some (Directory nm p del cs))"
  by (auto simp: is_dir_def split: option.splits FSItem.splits)

lemma is_dir_shrinks: "shrinks h h' \<Longrightarrow> is_dir h r \<Longrightarrow> is_dir h' r"
  unfolding is_dir_iff using shrinks_Directory by blast

lemma within_cases: "within h r x \<Longrightarrow> x = r \<or> (\<exists>c\<in>set (kids h r). within h c x)"
  by (erule within.cases) auto

lemma cascade_inv_refl: "cascade_inv h h"
  by (simp add: cascade_inv_def)

lemma cascade_inv_step:
  assumes "cascade_inv h0 h" and "shrinks h h'"
    and "\<And>p q x. q \<in> set (kids h p) \<Longrightarrow> q \<notin> set (kids h' p) \<Longrightarrow> within h0 q x \<Longrightarrow> cleared h' x"
  shows "cascade_inv h0 h'"
  unfolding cascade_inv_def
proof (intro allI impI)
  fix p q x
  assume a: "q \<in> set (kids h0 p) \<and> q \<notin> set (kids h' p)" and w: "within h0 q x"
  show "cleared h' x"
  proof (cases "q \<in> set (kids h p)")
    case True
    then show ?thesis using assms(3) a w by blast
  next
    case False
    then have "cleared h x" using assms(1) a w unfolding cascade_inv_def by blast
    then show ?thesis using assms(2) by (rule cleared_shrinks [rotated])
  qed
qed

lemma set_deleted_Some:
  assumes "get h r = Some (Directory nm p del cs)"
  shows "set_deleted h r = Some (h[r := Directory nm p True cs])"
  using assms by (simp add: set_deleted_def)

lemma remove_child_Some:
  assumes "get h r = Some (Directory nm p del cs)"
  shows "remove_child h r x = Some (h[r := Directory nm p del (filter (\<lambda>child. child \<noteq> x) cs)])"
  using assms by (simp add: remove_child_def)

lemma kids_update:
  "r < length h \<Longrightarrow> kids (h[r := Directory nm p del cs]) q = (if q = r then cs else kids h q)"
  by (simp add: kids_def get_list_update)

lemma set_deleted_SomeD:
  "set_deleted h r = Some h' \<Longrightarrow>
   \<exists>nm p del cs. get h r = Some (Directory nm p del cs) \<and> h' = h[r := Directory nm p True cs]"
  by (auto simp: set_deleted_def split: option.splits FSItem.splits)

lemma remove_child_SomeD:
  "remove_child h r x = Some h' \<Longrightarrow>
   \<exists>nm p del cs. get h r = Some (Directory nm p del cs) \<and>
      h' = h[r := Directory nm p del (filter (\<lambda>child. child \<noteq> x) cs)]"
  by (auto simp: remove_child_def split: option.splits FSItem.splits)

lemma kids_remove_child:
  assumes "remove_child h r x = Some h'"
  shows "kids h' q = (if q = r then filter (\<lambda>child. child \<noteq> x) (kids h r) else kids h q)"
proof -
  from remove_child_SomeD [OF assms] obtain nm p del cs where
    g: "get h r = Some (Directory nm p del cs)"
    and h': "h' = h[r := Directory nm p del (filter (\<lambda>child. child \<noteq> x) cs)]"
    by blast
  have "r < length h" using g by (rule get_Some_length)
  then show ?thesis using g h' by (simp add: kids_update kids_Directory)
qed

lemma kids_set_deleted:
  assumes "set_deleted h r = Some h'"
  shows "kids h' q = kids h q"
proof -
  from set_deleted_SomeD [OF assms] obtain nm p del cs where
    g: "get h r = Some (Directory nm p del cs)" and h': "h' = h[r := Directory nm p True cs]"
    by blast
  have "r < length h" using g by (rule get_Some_length)
  then show ?thesis using g h' by (simp add: kids_update kids_Directory)
qed

lemma cleared_set_deleted:
  assumes "set_deleted h r = Some h'" and "kids h r = []"
  shows "cleared h' r"
proof -
  from set_deleted_SomeD [OF assms(1)] obtain nm p del cs where
    g: "get h r = Some (Directory nm p del cs)" and h': "h' = h[r := Directory nm p True cs]"
    by blast
  have "r < length h" using g by (rule get_Some_length)
  then show ?thesis using g h' assms(2) by (simp add: cleared_def get_list_update kids_Directory)
qed

lemma cleared_File: "get h r = Some (File nm p) \<Longrightarrow> cleared h r"
  by (simp add: cleared_def)

text \<open>
  The two branches of \<^verbatim>\<open>delete\<close>. For a directory the loop runs over the sorted copy of
  the children read at entry, each call working on the store the call before left; the
  tombstone is set after the loop, and the removal from the receiver comes last.
\<close>

lemma depth_within_Suc_Directory:
  "depth_within (Suc n) h r \<Longrightarrow> c \<in> set (kids h r) \<Longrightarrow> depth_within n h c"
  by (auto simp: kids_def list_all_iff split: option.splits FSItem.splits)

lemma depth_within_get: "depth_within n h r \<Longrightarrow> get h r \<noteq> None"
  by (cases n) (auto split: option.splits)

text \<open>A bound on the depth below an object holds for every larger bound too.\<close>

lemma depth_within_mono: "depth_within n h r \<Longrightarrow> n \<le> m \<Longrightarrow> depth_within m h r"
proof (induction n arbitrary: m r)
  case 0
  then show ?case by simp
next
  case (Suc n)
  then obtain m' where m: "m = Suc m'" "n \<le> m'" by (cases m) auto
  show ?case
  proof (cases "get h r")
    case None
    then show ?thesis using Suc.prems by simp
  next
    case (Some a)
    show ?thesis
    proof (cases a)
      case (File nm p)
      then show ?thesis using Some m by simp
    next
      case (Directory nm p del cs)
      then have "\<forall>c\<in>set cs. depth_within n h c"
        using Suc.prems(1) Some by (simp add: list_all_iff)
      then have "\<forall>c\<in>set cs. depth_within m' h c"
        using Suc.IH m(2) by blast
      then show ?thesis using Some Directory m by (simp add: list_all_iff)
    qed
  qed
qed

lemma Directory_delete_File:
  assumes "get h item = Some (File fnm fp)"
  shows "Directory_delete lc (Suc n) h this item = remove_child h this item"
  using assms by simp

lemma Directory_delete_Directory:
  assumes "get h item = Some (Directory inm ip idel ics)"
  shows "Directory_delete lc (Suc n) h this item =
     do {
       h2 \<leftarrow> for_of (Array_sort (by_name lc h) ics)
               (\<lambda>h' child. Directory_delete lc n h' item child) h;
       h3 \<leftarrow> set_deleted h2 item;
       remove_child h3 this item
     }"
  using assms by (simp add: Directory_children_def)

lemma cascade_loop:
  assumes IH: "\<And>g this item. depth_within n h0 item \<Longrightarrow> shrinks h0 g \<Longrightarrow> cascade_inv h0 g \<Longrightarrow>
      is_dir g this \<Longrightarrow>
      \<exists>g'. Directory_delete lc n g this item = Some g' \<and> cascade_inv h0 g' \<and>
            item \<notin> set (kids g' this) \<and> (\<forall>x. within h0 item x \<longrightarrow> cleared g' x)"
    and "\<forall>c\<in>set xs. depth_within n h0 c"
    and "shrinks h0 g" and "cascade_inv h0 g" and "is_dir g item"
  shows "\<exists>g'. for_of xs (\<lambda>h' child. Directory_delete lc n h' item child) g = Some g' \<and>
           shrinks g g' \<and> cascade_inv h0 g' \<and>
           (\<forall>c\<in>set xs. c \<notin> set (kids g' item) \<and> (\<forall>x. within h0 c x \<longrightarrow> cleared g' x))"
  using assms(2-)
proof (induction xs arbitrary: g)
  case Nil
  then show ?case by (simp add: shrinks_refl)
next
  case (Cons c xs)
  have "depth_within n h0 c" using Cons.prems(1) by simp
  from IH [OF this Cons.prems(2,3,4)]
  obtain g1 where g1: "Directory_delete lc n g item c = Some g1" "cascade_inv h0 g1"
      "c \<notin> set (kids g1 item)" "\<forall>x. within h0 c x \<longrightarrow> cleared g1 x"
    by blast
  have s1: "shrinks g g1" using g1(1) by (rule Directory_delete_shrinks)
  have s01: "shrinks h0 g1" using Cons.prems(2) s1 by (rule shrinks_trans)
  have d1: "is_dir g1 item" using s1 Cons.prems(4) by (rule is_dir_shrinks)
  have "\<forall>c\<in>set xs. depth_within n h0 c" using Cons.prems(1) by simp
  from Cons.IH [OF this s01 g1(2) d1]
  obtain g' where g': "for_of xs (\<lambda>h' child. Directory_delete lc n h' item child) g1 = Some g'"
      "shrinks g1 g'" "cascade_inv h0 g'"
      "\<forall>c\<in>set xs. c \<notin> set (kids g' item) \<and> (\<forall>x. within h0 c x \<longrightarrow> cleared g' x)"
    by blast
  have "c \<notin> set (kids g' item)"
    using g1(3) kids_shrinks [OF g'(2), of item] by blast
  moreover have "\<forall>x. within h0 c x \<longrightarrow> cleared g' x"
    using g1(4) cleared_shrinks [OF g'(2)] by blast
  moreover have "shrinks g g'" using s1 g'(2) by (rule shrinks_trans)
  moreover have "for_of (c # xs) (\<lambda>h' child. Directory_delete lc n h' item child) g = Some g'"
    using g1(1) g'(1) by simp
  ultimately show ?case using g'(3,4) by auto
qed

lemma cascade:
  assumes "depth_within n h0 item" and "shrinks h0 h" and "cascade_inv h0 h" and "is_dir h this"
  shows "\<exists>h'. Directory_delete lc n h this item = Some h' \<and> cascade_inv h0 h' \<and>
           item \<notin> set (kids h' this) \<and> (\<forall>x. within h0 item x \<longrightarrow> cleared h' x)"
  using assms
proof (induction n arbitrary: h this item)
  case 0
  then show ?case by simp
next
  case (Suc n)
  obtain a0 where a0: "get h0 item = Some a0"
    using depth_within_get [OF Suc.prems(1)] by auto
  show ?case
  proof (cases a0)
    case (File fnm fp)
    have gi: "get h item = Some (File fnm fp)"
      using shrinks_File [OF Suc.prems(2)] a0 File by simp
    obtain h' where h': "remove_child h this item = Some h'"
      using Suc.prems(4) remove_child_Some unfolding is_dir_iff by blast
    have del: "Directory_delete lc (Suc n) h this item = Some h'"
      using Directory_delete_File [OF gi] h' by simp
    have sh: "shrinks h h'" using h' by (rule remove_child_shrinks)
    have only: "x = item" if "within h0 item x" for x
      using within_cases [OF that] kids_File [of h0 item fnm fp] a0 File by simp
    have cl: "cleared h' item"
      using shrinks_File [OF sh gi] by (rule cleared_File)
    have "cascade_inv h0 h'"
    proof (rule cascade_inv_step [OF Suc.prems(3) sh])
      fix p q x
      assume "q \<in> set (kids h p)" "q \<notin> set (kids h' p)" "within h0 q x"
      then have "q = item" using kids_remove_child [OF h', of p] by (auto split: if_splits)
      then show "cleared h' x" using only \<open>within h0 q x\<close> cl by blast
    qed
    moreover have "item \<notin> set (kids h' this)"
      using kids_remove_child [OF h', of this] by simp
    ultimately show ?thesis using del only cl by blast
  next
    case (Directory inm ip idel ics0)
    have g0: "get h0 item = Some (Directory inm ip idel ics0)" using a0 Directory by simp
    from shrinks_Directory [OF Suc.prems(2) g0]
    obtain idel' ics where gi: "get h item = Some (Directory inm ip idel' ics)"
      and sub: "set ics \<subseteq> set ics0" by blast
    let ?snap = "Array_sort (by_name lc h) ics"
    have k0: "kids h0 item = ics0" using g0 by (rule kids_Directory)
    have k: "kids h item = ics" using gi by (rule kids_Directory)
    have dw: "\<forall>c\<in>set ?snap. depth_within n h0 c"
      using depth_within_Suc_Directory [OF Suc.prems(1)] sub k0 by (auto simp: set_Array_sort)
    have di: "is_dir h item" using gi unfolding is_dir_iff by blast
    from cascade_loop [of n h0 lc ?snap h item, OF Suc.IH dw Suc.prems(2,3) di]
    obtain h2 where h2: "for_of ?snap (\<lambda>h' child. Directory_delete lc n h' item child) h = Some h2"
      "shrinks h h2" "cascade_inv h0 h2"
      "\<forall>c\<in>set ?snap. c \<notin> set (kids h2 item) \<and> (\<forall>x. within h0 c x \<longrightarrow> cleared h2 x)"
      by blast
    have k2: "kids h2 item = []"
    proof -
      have "set (kids h2 item) \<subseteq> set ics" using kids_shrinks [OF h2(2), of item] k by simp
      moreover have "\<forall>c\<in>set ics. c \<notin> set (kids h2 item)" using h2(4) by (simp add: set_Array_sort)
      ultimately show ?thesis by (cases "kids h2 item") auto
    qed
    have "is_dir h2 item" using h2(2) di by (rule is_dir_shrinks)
    then obtain h3 where h3: "set_deleted h2 item = Some h3"
      using set_deleted_Some unfolding is_dir_iff by blast
    have s23: "shrinks h2 h3" using h3 by (rule set_deleted_shrinks)
    have s3: "shrinks h h3" using h2(2) s23 by (rule shrinks_trans)
    have inv3: "cascade_inv h0 h3"
      using cascade_inv_step [OF h2(3) s23] kids_set_deleted [OF h3] by simp
    have cl3: "cleared h3 x" if w: "within h0 item x" for x
    proof -
      from within_cases [OF w] consider "x = item" | c where "c \<in> set ics0" "within h0 c x"
        using k0 by auto
      then show ?thesis
      proof cases
        case 1
        then show ?thesis using cleared_set_deleted [OF h3 k2] by simp
      next
        case 2
        show ?thesis
        proof (cases "c \<in> set ics")
          case True
          then have "cleared h2 x" using h2(4) 2(2) by (simp add: set_Array_sort)
          then show ?thesis using s23 by (rule cleared_shrinks [rotated])
        next
          case False
          then have "cleared h x"
            using Suc.prems(3) 2 k k0 unfolding cascade_inv_def by blast
          then show ?thesis using s3 by (rule cleared_shrinks [rotated])
        qed
      qed
    qed
    have "is_dir h3 this" using s3 Suc.prems(4) by (rule is_dir_shrinks)
    then obtain h' where h': "remove_child h3 this item = Some h'"
      using remove_child_Some unfolding is_dir_iff by blast
    have sh: "shrinks h3 h'" using h' by (rule remove_child_shrinks)
    have del: "Directory_delete lc (Suc n) h this item = Some h'"
      using Directory_delete_Directory [OF gi] h2(1) h3 h' by simp
    have cl: "cleared h' x" if "within h0 item x" for x
      using cl3 [OF that] sh by (rule cleared_shrinks [rotated])
    have "cascade_inv h0 h'"
    proof (rule cascade_inv_step [OF inv3 sh])
      fix p q x
      assume "q \<in> set (kids h3 p)" "q \<notin> set (kids h' p)" "within h0 q x"
      then have "q = item" using kids_remove_child [OF h', of p] by (auto split: if_splits)
      then show "cleared h' x" using cl \<open>within h0 q x\<close> by blast
    qed
    moreover have "item \<notin> set (kids h' this)"
      using kids_remove_child [OF h', of this] by simp
    ultimately show ?thesis using del cl by blast
  qed
qed

text \<open>What is not below the item is not touched before the receiver's list is filtered.\<close>

lemma get_remove_child:
  "remove_child h r x = Some h' \<Longrightarrow> q \<noteq> r \<Longrightarrow> get h' q = get h q"
  by (auto dest!: remove_child_SomeD simp: get_list_update)

lemma get_set_deleted:
  "set_deleted h r = Some h' \<Longrightarrow> q \<noteq> r \<Longrightarrow> get h' q = get h q"
  by (auto dest!: set_deleted_SomeD simp: get_list_update)

lemma within_trans: "within h a b \<Longrightarrow> within h b c \<Longrightarrow> within h a c"
  by (induction rule: within.induct) (auto intro: within.below)

lemma frame_loop:
  assumes IH: "\<And>g this item g'. Directory_delete lc n g this item = Some g' \<Longrightarrow>
      \<exists>g1. remove_child g1 this item = Some g' \<and> (\<forall>r. \<not> within g item r \<longrightarrow> get g1 r = get g r)"
    and "for_of xs (\<lambda>h' child. Directory_delete lc n h' item child) g = Some g'"
    and "set xs \<subseteq> set (kids h item)" and "shrinks h g" and "\<not> within h item r"
  shows "get g' r = get g r"
  using assms(2-)
proof (induction xs arbitrary: g)
  case Nil
  then show ?case by simp
next
  case (Cons c xs)
  from Cons.prems(1) obtain g1 where g1: "Directory_delete lc n g item c = Some g1"
      "for_of xs (\<lambda>h' child. Directory_delete lc n h' item child) g1 = Some g'"
    by (auto split: option.splits)
  have c: "c \<in> set (kids h item)" using Cons.prems(2) by simp
  have ri: "r \<noteq> item" using Cons.prems(4) within.here by blast
  have "\<not> within g c r"
  proof
    assume "within g c r"
    then have "within h c r" using Cons.prems(3) by (rule within_shrinks)
    then have "within h item r" using c by (auto intro: within.below)
    then show False using Cons.prems(4) by simp
  qed
  moreover from IH [OF g1(1)] obtain g0 where g0: "remove_child g0 item c = Some g1"
      "\<forall>r. \<not> within g c r \<longrightarrow> get g0 r = get g r"
    by blast
  ultimately have "get g1 r = get g r"
    using get_remove_child [OF g0(1), of r] ri by simp
  moreover have "shrinks h g1"
    using Cons.prems(3) Directory_delete_shrinks [OF g1(1)] by (rule shrinks_trans)
  moreover have "set xs \<subseteq> set (kids h item)" using Cons.prems(2) by simp
  ultimately show ?case using Cons.IH [OF g1(2) _ _ Cons.prems(4)] by simp
qed

lemma Directory_delete_frame:
  "Directory_delete lc n h this item = Some h' \<Longrightarrow>
   \<exists>h1. remove_child h1 this item = Some h' \<and> (\<forall>r. \<not> within h item r \<longrightarrow> get h1 r = get h r)"
proof (induction n arbitrary: h this item h')
  case 0
  then show ?case by simp
next
  case (Suc n)
  show ?case
  proof (cases "get h item")
    case None
    then show ?thesis using Suc.prems by simp
  next
    case (Some a)
    show ?thesis
    proof (cases a)
      case (File fnm fp)
      then show ?thesis using Suc.prems Some by auto
    next
      case (Directory inm ip idel ics)
      then have gi: "get h item = Some (Directory inm ip idel ics)" using Some by simp
      let ?snap = "Array_sort (by_name lc h) ics"
      from Suc.prems obtain h2 h3 where
        h2: "for_of ?snap (\<lambda>h' child. Directory_delete lc n h' item child) h = Some h2"
        and h3: "set_deleted h2 item = Some h3"
        and h': "remove_child h3 this item = Some h'"
        unfolding Directory_delete_Directory [OF gi] by (auto simp: bind_eq_Some_conv)
      have "get h3 r = get h r" if nw: "\<not> within h item r" for r
      proof -
        have "set ?snap \<subseteq> set (kids h item)"
          using kids_Directory [OF gi] by (simp add: set_Array_sort)
        then have "get h2 r = get h r"
          using frame_loop [OF Suc.IH h2 _ shrinks_refl nw] by simp
        moreover have "r \<noteq> item" using nw within.here by blast
        ultimately show ?thesis using get_set_deleted [OF h3] by simp
      qed
      then show ?thesis using h' by blast
    qed
  qed
qed

lemma cleared_Directory:
  assumes "shrinks h h'" and "cleared h' x" and "get h x = Some (Directory nm p del cs)"
  shows "get h' x = Some (Directory nm p True [])"
  using shrinks_Directory [OF assms(1,3)] assms(2) by (auto simp: cleared_def)

lemma cleared_kids: "cleared h x \<Longrightarrow> kids h x = []"
  by (auto simp: cleared_def kids_def split: option.splits FSItem.splits)

text \<open>
  C1 (as amended). Let \<open>item\<close> be an object below which the child references form no cycle, with at
  most \<open>n\<close> levels, and \<open>this\<close> a directory. Then \<^verbatim>\<open>this.delete(item)\<close> completes within
  call depth \<open>n\<close>, and afterwards, for every \<open>d\<close> that is the item or below it and every
  \<open>x\<close> that is \<open>d\<close> or below it: if \<open>x\<close> is a directory it has \<^verbatim>\<open>deleted == true\<close> and no
  children, name and parent as before; if \<open>x\<close> is a file, which has no \<^verbatim>\<open>deleted\<close>
  field, it is as before; and \<open>x\<close> is absent from the children of every directory that
  held it and is the item or below it, and the item is absent from the children of the
  receiver. No child is skipped: the loop runs over a snapshot. What is neither below the
  item nor the receiver is untouched, and the receiver, when it is not below the item,
  loses from its children exactly the references identical to the item, whatever their
  names.
\<close>

theorem Directory_delete_cascades:
  assumes "depth_within n h item" and "is_dir h this"
  shows "\<exists>h'. Directory_delete lc n h this item = Some h' \<and>
           item \<notin> set (kids h' this) \<and>
           (\<forall>d x. within h item d \<and> within h d x \<longrightarrow>
              (is_dir h x \<longrightarrow> read_deleted h' x = Some True) \<and>
              (\<forall>nm p del cs. get h x = Some (Directory nm p del cs) \<longrightarrow>
                 get h' x = Some (Directory nm p True [])) \<and>
              (\<forall>nm p. get h x = Some (File nm p) \<longrightarrow> get h' x = Some (File nm p)) \<and>
              (\<forall>q. x \<in> set (kids h q) \<and> (within h item q \<or> q = this \<and> x = item) \<longrightarrow>
                 x \<notin> set (kids h' q))) \<and>
           (\<forall>r. \<not> within h item r \<and> r \<noteq> this \<longrightarrow> get h' r = get h r) \<and>
           (\<not> within h item this \<longrightarrow>
              (\<forall>nm p del cs. get h this = Some (Directory nm p del cs) \<longrightarrow>
                 get h' this = Some (Directory nm p del (filter (\<lambda>child. child \<noteq> item) cs))))"
proof -
  from cascade [OF assms(1) shrinks_refl cascade_inv_refl assms(2), of lc]
  obtain h' where del: "Directory_delete lc n h this item = Some h'"
    and gone: "item \<notin> set (kids h' this)"
    and cl: "\<forall>x. within h item x \<longrightarrow> cleared h' x"
    by blast
  have sh: "shrinks h h'" using del by (rule Directory_delete_shrinks)
  from Directory_delete_frame [OF del] obtain h1 where
    h1: "remove_child h1 this item = Some h'" "\<forall>r. \<not> within h item r \<longrightarrow> get h1 r = get h r"
    by blast
  have below: "(is_dir h x \<longrightarrow> read_deleted h' x = Some True) \<and>
              (\<forall>nm p del cs. get h x = Some (Directory nm p del cs) \<longrightarrow>
                 get h' x = Some (Directory nm p True [])) \<and>
              (\<forall>nm p. get h x = Some (File nm p) \<longrightarrow> get h' x = Some (File nm p)) \<and>
              (\<forall>q. x \<in> set (kids h q) \<and> (within h item q \<or> q = this \<and> x = item) \<longrightarrow>
                 x \<notin> set (kids h' q))"
    if "within h item d \<and> within h d x" for d x
  proof -
    have w: "within h item x" using that within_trans by blast
    then have c: "cleared h' x" using cl by simp
    have 1: "\<forall>nm p del cs. get h x = Some (Directory nm p del cs) \<longrightarrow>
                 get h' x = Some (Directory nm p True [])"
      using cleared_Directory [OF sh c] by blast
    have 2: "\<forall>nm p. get h x = Some (File nm p) \<longrightarrow> get h' x = Some (File nm p)"
      using shrinks_File [OF sh] by blast
    have 3: "\<forall>q. x \<in> set (kids h q) \<and> (within h item q \<or> q = this \<and> x = item) \<longrightarrow>
                 x \<notin> set (kids h' q)"
    proof (intro allI impI)
      fix q
      assume a: "x \<in> set (kids h q) \<and> (within h item q \<or> q = this \<and> x = item)"
      then consider "within h item q" | "q = this" "x = item" by blast
      then show "x \<notin> set (kids h' q)"
      proof cases
        case 1
        then have "kids h' q = []" using cl cleared_kids by blast
        then show ?thesis by simp
      next
        case 2
        then show ?thesis using gone by simp
      qed
    qed
    have 0: "is_dir h x \<longrightarrow> read_deleted h' x = Some True"
      using 1 unfolding is_dir_iff by (auto simp: read_deleted_def)
    show ?thesis using 0 1 2 3 by (intro conjI)
  qed
  have frame: "\<forall>r. \<not> within h item r \<and> r \<noteq> this \<longrightarrow> get h' r = get h r"
    using h1(2) get_remove_child [OF h1(1)] by simp
  have recv: "\<not> within h item this \<longrightarrow>
              (\<forall>nm p del cs. get h this = Some (Directory nm p del cs) \<longrightarrow>
                 get h' this = Some (Directory nm p del (filter (\<lambda>child. child \<noteq> item) cs)))"
  proof (intro impI allI)
    fix nm p del cs
    assume nw: "\<not> within h item this" and g: "get h this = Some (Directory nm p del cs)"
    then have g1: "get h1 this = Some (Directory nm p del cs)" using h1(2) by simp
    have lt: "this < length h1" using g1 by (rule get_Some_length)
    have "h' = h1[this := Directory nm p del (filter (\<lambda>child. child \<noteq> item) cs)]"
      using h1(1) remove_child_Some [OF g1, of item] by simp
    then show "get h' this = Some (Directory nm p del (filter (\<lambda>child. child \<noteq> item) cs))"
      using lt by (simp add: get_list_update)
  qed
  show ?thesis
    using del gone below frame recv by blast
qed

theorem Directory_delete_cascades_witness:
  "Directory_delete compare_code_units 3
     [Directory ''root'' None False [1, 5],
      Directory ''docs'' (Some 0) False [2, 3],
      File ''a.txt'' (Some 1),
      Directory ''sub'' (Some 1) False [4],
      File ''b.txt'' (Some 3),
      File ''docs'' (Some 0)] 0 1
   = Some
     [Directory ''root'' None False [5],
      Directory ''docs'' (Some 0) True [],
      File ''a.txt'' (Some 1),
      Directory ''sub'' (Some 1) True [],
      File ''b.txt'' (Some 3),
      File ''docs'' (Some 0)]"
proof -
  let ?h = "[Directory ''root'' None False [1, 5],
      Directory ''docs'' (Some 0) False [2, 3],
      File ''a.txt'' (Some 1),
      Directory ''sub'' (Some 1) False [4],
      File ''b.txt'' (Some 3),
      File ''docs'' (Some 0)]"
  have d: "depth_within 3 ?h 1"
    by code_simp
  have r: "is_dir ?h 0"
    by code_simp
  from Directory_delete_cascades [OF d r, of compare_code_units]
  obtain h' where h': "Directory_delete compare_code_units 3 ?h 0 1 = Some h'"
    and gone: "1 \<notin> set (kids h' 0)"
    by blast
  have "Directory_delete compare_code_units 3 ?h 0 1
   = Some
     [Directory ''root'' None False [5],
      Directory ''docs'' (Some 0) True [],
      File ''a.txt'' (Some 1),
      Directory ''sub'' (Some 1) True [],
      File ''b.txt'' (Some 3),
      File ''docs'' (Some 0)]"
    by code_simp
  then show ?thesis using h' gone by simp
qed

text \<open>
  C1 as stated fails for the files below the item: after \<^verbatim>\<open>root.delete(docs)\<close> the file in
  \<^verbatim>\<open>docs\<close> is a descendant whose \<^verbatim>\<open>deleted\<close> is not \<^verbatim>\<open>true\<close>.
\<close>

theorem File_descendant_not_tombstoned_counterexample:
  "Directory_delete compare_code_units 3
     [Directory ''root'' None False [1],
      Directory ''docs'' (Some 0) False [2],
      File ''a.txt'' (Some 1)] 0 1
   = Some
     [Directory ''root'' None False [],
      Directory ''docs'' (Some 0) True [],
      File ''a.txt'' (Some 1)] \<and>
   2 \<in> set (kids [Directory ''root'' None False [1],
      Directory ''docs'' (Some 0) False [2],
      File ''a.txt'' (Some 1)] 1) \<and>
   read_deleted [Directory ''root'' None False [],
      Directory ''docs'' (Some 0) True [],
      File ''a.txt'' (Some 1)] 2 \<noteq> Some True"
  by code_simp

subsection \<open>Deleting the selection\<close>

lemma depth_within_shrinks:
  "shrinks h h' \<Longrightarrow> depth_within n h r \<Longrightarrow> depth_within n h' r"
proof (induction n arbitrary: r)
  case 0
  then show ?case by simp
next
  case (Suc n)
  obtain a where a: "get h r = Some a"
    using depth_within_get [OF Suc.prems(2)] by auto
  show ?case
  proof (cases a)
    case (File nm p)
    then show ?thesis using shrinks_File [OF Suc.prems(1)] a by simp
  next
    case (Directory nm p del cs)
    then have g: "get h r = Some (Directory nm p del cs)" using a by simp
    from shrinks_Directory [OF Suc.prems(1) g] obtain del' cs' where
      g': "get h' r = Some (Directory nm p del' cs')" and sub: "set cs' \<subseteq> set cs"
      by blast
    have "\<forall>c\<in>set cs. depth_within n h c"
      using Suc.prems(2) g by (simp add: list_all_iff)
    then have "\<forall>c\<in>set cs'. depth_within n h' c"
      using sub Suc.IH [OF Suc.prems(1)] by blast
    then show ?thesis using g' by (simp add: list_all_iff)
  qed
qed

lemma parent_shrinks:
  assumes "shrinks h h'" and "get h r = Some a"
  shows "\<exists>b. get h' r = Some b \<and> parent b = parent a"
  using shrinks_get [OF assms] by (cases a) (auto simp: obj_shrinks_def)

lemma list_update_same: "get h r = Some a \<Longrightarrow> h[r := a] = h"
  by (auto simp: get_def split: if_splits)

lemma delete_absent_noop:
  assumes "is_dir h q" and "get h x \<noteq> None" and "cleared h x" and "x \<notin> set (kids h q)"
  shows "Directory_delete lc (Suc m) h q x = Some h"
proof -
  from assms(1) obtain nm p del cs where q: "get h q = Some (Directory nm p del cs)"
    unfolding is_dir_iff by blast
  have "filter (\<lambda>child. child \<noteq> x) cs = cs"
    using assms(4) kids_Directory [OF q] by (auto simp: filter_id_conv)
  then have rm: "remove_child h q x = Some h"
    using remove_child_Some [OF q, of x] list_update_same [OF q] by simp
  obtain a where a: "get h x = Some a" using assms(2) by auto
  show ?thesis
  proof (cases a)
    case (File fnm fp)
    then show ?thesis using a rm by simp
  next
    case (Directory inm ip idel ics)
    then have g: "get h x = Some (Directory inm ip idel ics)" using a by simp
    then have c: "idel" "ics = []" using assms(3) by (simp_all add: cleared_def)
    have "set_deleted h x = Some h"
      using set_deleted_Some [OF g] list_update_same [OF g] c by simp
    then show ?thesis
      using Directory_delete_Directory [OF g, of lc m q] c rm by (simp add: Array_sort_def)
  qed
qed

lemma deleteSelection_loop:
  assumes "\<forall>x\<in>set xs. depth_within n h x \<and>
             (\<forall>q. map_option parent (get h x) = Some (Some q) \<longrightarrow> is_dir h q)"
    and "shrinks h g"
  shows "\<exists>g'. for_of xs
            (\<lambda>h item. case get h item of
                         None \<Rightarrow> None
                       | Some obj \<Rightarrow>
                           (case parent obj of
                              None \<Rightarrow> Some h
                            | Some p \<Rightarrow> Directory_delete lc n h p item)) g = Some g' \<and>
           shrinks g g' \<and>
           (\<forall>x\<in>set xs. \<forall>q. map_option parent (get h x) = Some (Some q) \<longrightarrow> x \<notin> set (kids g' q))"
  using assms
proof (induction xs arbitrary: g)
  case Nil
  then show ?case by (simp add: shrinks_refl)
next
  case (Cons x xs)
  let ?body = "\<lambda>h item. case get h item of
                         None \<Rightarrow> None
                       | Some obj \<Rightarrow>
                           (case parent obj of
                              None \<Rightarrow> Some h
                            | Some p \<Rightarrow> Directory_delete lc n h p item)"
  have dx: "depth_within n h x" using Cons.prems(1) by simp
  obtain a where a: "get h x = Some a" using depth_within_get [OF dx] by auto
  from parent_shrinks [OF Cons.prems(2) a] obtain b where
    b: "get g x = Some b" "parent b = parent a" by blast
  have "\<exists>g1. ?body g x = Some g1 \<and> shrinks g g1 \<and>
          (\<forall>q. map_option parent (get h x) = Some (Some q) \<longrightarrow> x \<notin> set (kids g1 q))"
  proof (cases "parent a")
    case None
    then show ?thesis using a b by (simp add: shrinks_refl)
  next
    case (Some q)
    then have "is_dir h q" using Cons.prems(1) a by simp
    then have dq: "is_dir g q" using Cons.prems(2) by (rule is_dir_shrinks [rotated])
    have dg: "depth_within n g x" using Cons.prems(2) dx by (rule depth_within_shrinks)
    from cascade [OF dg shrinks_refl cascade_inv_refl dq, of lc]
    obtain g1 where g1: "Directory_delete lc n g q x = Some g1" "x \<notin> set (kids g1 q)"
      by blast
    have "shrinks g g1" using g1(1) by (rule Directory_delete_shrinks)
    then show ?thesis using g1 a b Some by simp
  qed
  then obtain g1 where g1: "?body g x = Some g1" "shrinks g g1"
      "\<forall>q. map_option parent (get h x) = Some (Some q) \<longrightarrow> x \<notin> set (kids g1 q)"
    by blast
  have s1: "shrinks h g1" using Cons.prems(2) g1(2) by (rule shrinks_trans)
  have "\<forall>x\<in>set xs. depth_within n h x \<and>
             (\<forall>q. map_option parent (get h x) = Some (Some q) \<longrightarrow> is_dir h q)"
    using Cons.prems(1) by simp
  from Cons.IH [OF this s1] obtain g' where
    g': "for_of xs ?body g1 = Some g'" "shrinks g1 g'"
      "\<forall>x\<in>set xs. \<forall>q. map_option parent (get h x) = Some (Some q) \<longrightarrow> x \<notin> set (kids g' q)"
    by blast
  have "for_of (x # xs) ?body g = Some g'" using g1(1) g'(1) by simp
  moreover have "shrinks g g'" using g1(2) g'(2) by (rule shrinks_trans)
  moreover have "\<forall>q. map_option parent (get h x) = Some (Some q) \<longrightarrow> x \<notin> set (kids g' q)"
    using g1(3) kids_shrinks [OF g'(2)] by blast
  ultimately show ?case using g'(3) by auto
qed

text \<open>
  C7. Let every selected item be an object below which the child references form no
  cycle, with at most \<open>n\<close> levels, with a directory as parent if it has one, and let
  \<open>cwd\<close> be a directory. Then \<^verbatim>\<open>deleteSelection\<close> completes within call depth \<open>n\<close>: each
  selected item is gone from its parent's children, and the selection is a new one over
  the children read from \<open>cwd\<close> in the new store, with nothing selected. This holds also
  when a directory and an item below it are both selected. A second call right after
  returns the same store and the same view model, with any bound on the call depth. And
  deleting from a directory an item that is cleared and no longer among its children
  leaves the store as it is.
\<close>

theorem deleteSelection_twice:
  assumes "\<forall>x\<in>set (Selection_items (selection vm)).
             depth_within n h x \<and>
             (\<forall>q. map_option parent (get h x) = Some (Some q) \<longrightarrow> is_dir h q)"
    and "is_dir h (cwd vm)"
  shows "\<exists>h' cs.
           FSViewModel_deleteSelection lc n (h, vm)
             = Some (h', vm\<lparr>selection := Selection_new cs\<rparr>) \<and>
           Directory_children lc h' (cwd vm) = Some cs \<and>
           Selection_items (Selection_new cs) = [] \<and>
           (\<forall>x\<in>set (Selection_items (selection vm)).
              \<forall>q. map_option parent (get h x) = Some (Some q) \<longrightarrow> x \<notin> set (kids h' q)) \<and>
           (\<forall>m. FSViewModel_deleteSelection lc m (h', vm\<lparr>selection := Selection_new cs\<rparr>)
                  = Some (h', vm\<lparr>selection := Selection_new cs\<rparr>)) \<and>
           (\<forall>m q x. is_dir h' q \<and> get h' x \<noteq> None \<and> cleared h' x \<and> x \<notin> set (kids h' q) \<longrightarrow>
              Directory_delete lc (Suc m) h' q x = Some h')"
proof -
  from deleteSelection_loop [OF assms(1) shrinks_refl, of lc]
  obtain h' where h': "for_of (Selection_items (selection vm))
            (\<lambda>h item. case get h item of
                         None \<Rightarrow> None
                       | Some obj \<Rightarrow>
                           (case parent obj of
                              None \<Rightarrow> Some h
                            | Some p \<Rightarrow> Directory_delete lc n h p item)) h = Some h'"
    and sh: "shrinks h h'"
    and gone: "\<forall>x\<in>set (Selection_items (selection vm)).
              \<forall>q. map_option parent (get h x) = Some (Some q) \<longrightarrow> x \<notin> set (kids h' q)"
    by blast
  have "is_dir h' (cwd vm)" using sh assms(2) by (rule is_dir_shrinks)
  then obtain cs where cs: "Directory_children lc h' (cwd vm) = Some cs"
    unfolding is_dir_iff by (auto simp: Directory_children_def)
  have first: "FSViewModel_deleteSelection lc n (h, vm) = Some (h', vm\<lparr>selection := Selection_new cs\<rparr>)"
    using h' cs by (simp add: FSViewModel_deleteSelection_def)
  have empty: "Selection_items (Selection_new cs) = []"
    by (simp add: Selection_items_def Selection_new_def)
  have again: "FSViewModel_deleteSelection lc m (h', vm\<lparr>selection := Selection_new cs\<rparr>)
                  = Some (h', vm\<lparr>selection := Selection_new cs\<rparr>)" for m
    using cs empty by (simp add: FSViewModel_deleteSelection_def)
  have noop: "\<forall>m q x. is_dir h' q \<and> get h' x \<noteq> None \<and> cleared h' x \<and> x \<notin> set (kids h' q) \<longrightarrow>
              Directory_delete lc (Suc m) h' q x = Some h'"
    using delete_absent_noop by blast
  show ?thesis using first cs empty gone again noop by blast
qed

theorem deleteSelection_twice_witness:
  "FSViewModel_deleteSelection compare_code_units 2
     ([Directory ''root'' None False [1, 2], Directory ''docs'' (Some 0) False [3],
       File ''notes.txt'' (Some 0), File ''readme'' (Some 1)],
      \<lparr>cwd = 0, selection = \<lparr>universe = [1, 3, 2], selected = {1, 3}, anchor = Some 3\<rparr>,
       expandedDirs = {}\<rparr>)
   = Some ([Directory ''root'' None False [2], Directory ''docs'' (Some 0) True [],
            File ''notes.txt'' (Some 0), File ''readme'' (Some 1)],
           \<lparr>cwd = 0, selection = \<lparr>universe = [2], selected = {}, anchor = None\<rparr>,
            expandedDirs = {}\<rparr>) \<and>
   FSViewModel_deleteSelection compare_code_units 2
     ([Directory ''root'' None False [2], Directory ''docs'' (Some 0) True [],
       File ''notes.txt'' (Some 0), File ''readme'' (Some 1)],
      \<lparr>cwd = 0, selection = \<lparr>universe = [2], selected = {}, anchor = None\<rparr>,
       expandedDirs = {}\<rparr>)
   = Some ([Directory ''root'' None False [2], Directory ''docs'' (Some 0) True [],
            File ''notes.txt'' (Some 0), File ''readme'' (Some 1)],
           \<lparr>cwd = 0, selection = \<lparr>universe = [2], selected = {}, anchor = None\<rparr>,
            expandedDirs = {}\<rparr>)"
proof -
  let ?h = "[Directory ''root'' None False [1, 2], Directory ''docs'' (Some 0) False [3],
       File ''notes.txt'' (Some 0), File ''readme'' (Some 1)]"
  let ?vm = "\<lparr>cwd = 0, selection = \<lparr>universe = [1, 3, 2], selected = {1, 3}, anchor = Some 3\<rparr>,
       expandedDirs = {}\<rparr> :: FSViewModel"
  let ?h1 = "[Directory ''root'' None False [2], Directory ''docs'' (Some 0) True [],
            File ''notes.txt'' (Some 0), File ''readme'' (Some 1)]"
  let ?vm1 = "\<lparr>cwd = 0, selection = \<lparr>universe = [2], selected = {}, anchor = None\<rparr>,
            expandedDirs = {}\<rparr> :: FSViewModel"
  have items: "Selection_items (selection ?vm) = [1, 3]"
    by (simp add: Selection_items_def)
  have d: "depth_within 2 ?h 1" "depth_within 2 ?h 3"
    by code_simp+
  have p: "\<forall>q. map_option parent (get ?h 1) = Some (Some q) \<longrightarrow> is_dir ?h q"
    "\<forall>q. map_option parent (get ?h 3) = Some (Some q) \<longrightarrow> is_dir ?h q"
    by (simp_all add: get_def is_dir_def)
  have 1: "\<forall>x\<in>set (Selection_items (selection ?vm)).
             depth_within 2 ?h x \<and>
             (\<forall>q. map_option parent (get ?h x) = Some (Some q) \<longrightarrow> is_dir ?h q)"
    unfolding items using d p by simp
  have 2: "is_dir ?h (cwd ?vm)"
    by (simp add: get_def is_dir_def)
  from deleteSelection_twice [OF 1 2, of compare_code_units]
  obtain h' cs where
    first: "FSViewModel_deleteSelection compare_code_units 2 (?h, ?vm)
             = Some (h', ?vm\<lparr>selection := Selection_new cs\<rparr>)"
    and again: "\<forall>m. FSViewModel_deleteSelection compare_code_units m (h', ?vm\<lparr>selection := Selection_new cs\<rparr>)
                  = Some (h', ?vm\<lparr>selection := Selection_new cs\<rparr>)"
    by blast
  have ev: "FSViewModel_deleteSelection compare_code_units 2 (?h, ?vm) = Some (?h1, ?vm1)"
    by code_simp
  have eq: "h' = ?h1" "?vm\<lparr>selection := Selection_new cs\<rparr> = ?vm1"
    using first ev by simp_all
  show ?thesis using ev again [rule_format, of 2] unfolding eq by (intro conjI)
qed

end
